theory Spec2Isabelle
  imports Main "HOL-Library.Char_ord" "HOL-Library.List_Lexorder" "HOL-Library.Sublist"
begin

section \<open>Strings as the program sees them\<close>

text \<open>
  A Python \<open>str\<close> is modelled as a \<open>string\<close> (a list of \<open>char\<close>); a \<open>char\<close> stands for
  the code point with the same number, so the model covers the code points below 256.
  Strings are compared as Python compares them: lexicographically by code point.
\<close>

definition py_isspace :: "char \<Rightarrow> bool" where
  \<comment> \<open>\<open>str.isspace\<close> on one code point below 256: TAB..CR, FS..US, space, NEL, NBSP.\<close>
  "py_isspace c =
     (let n = (of_char c :: nat)
      in (9 \<le> n \<and> n \<le> 13) \<or> (28 \<le> n \<and> n \<le> 32) \<or> n = 133 \<or> n = 160)"

definition py_lower_char :: "char \<Rightarrow> char" where
  \<comment> \<open>\<open>str.lower\<close> on one code point below 256: A..Z and the Latin-1 capitals but the
      multiplication sign move up by 32.\<close>
  "py_lower_char c =
     (let n = (of_char c :: nat)
      in if (65 \<le> n \<and> n \<le> 90) \<or> (192 \<le> n \<and> n \<le> 222 \<and> n \<noteq> 215)
         then char_of (n + 32) else c)"

definition py_lower :: "string \<Rightarrow> string" where
  "py_lower s = map py_lower_char s"

definition py_strip :: "string \<Rightarrow> string" where
  \<comment> \<open>\<open>s.strip()\<close>\<close>
  "py_strip s = rev (dropWhile py_isspace (rev (dropWhile py_isspace s)))"

fun split_where :: "(char \<Rightarrow> bool) \<Rightarrow> string \<Rightarrow> string list" where
  \<comment> \<open>Cuts a string at every character that satisfies the test: never an empty list.\<close>
  "split_where is_sep [] = [[]]"
| "split_where is_sep (c # cs) =
     (if is_sep c then [] # split_where is_sep cs
      else (case split_where is_sep cs of
              [] \<Rightarrow> [[c]]
            | w # ws \<Rightarrow> (c # w) # ws))"

definition split_on :: "char \<Rightarrow> string \<Rightarrow> string list" where
  \<comment> \<open>\<open>s.split(sep)\<close> for a separator of one character.\<close>
  "split_on sep s = split_where (\<lambda>c. c = sep) s"

definition py_split_ws :: "string \<Rightarrow> string list" where
  \<comment> \<open>\<open>s.split()\<close>: the maximal runs of characters that are not whitespace.\<close>
  "py_split_ws s = filter (\<lambda>w. w \<noteq> []) (split_where py_isspace s)"

fun py_in :: "string \<Rightarrow> string \<Rightarrow> bool" where
  \<comment> \<open>\<open>needle in hay\<close> on strings: \<open>needle\<close> occurs as a contiguous piece of \<open>hay\<close>.\<close>
  "py_in needle [] = (needle = [])"
| "py_in needle (c # cs) = (take (length needle) (c # cs) = needle \<or> py_in needle cs)"

definition startswith :: "string \<Rightarrow> string \<Rightarrow> bool" where
  "startswith s p = (take (length p) s = p)"

definition endswith :: "string \<Rightarrow> string \<Rightarrow> bool" where
  "endswith s p = (length p \<le> length s \<and> drop (length s - length p) s = p)"


section \<open>The credential pool\<close>

text \<open>
  The module-level globals \<open>current_imgbb_keys\<close>, \<open>current_key_index\<close>, \<open>valid_keys\<close> and
  \<open>failed_keys\<close>. Every function below takes the globals and returns them updated.
\<close>

record pool =
  current_imgbb_keys :: "string list"
  current_key_index :: nat
  valid_keys :: "string set"
  failed_keys :: "string set"

definition module_globals :: pool where
  \<comment> \<open>The values the module assigns when it is loaded.\<close>
  "module_globals =
     \<lparr>current_imgbb_keys = [], current_key_index = 0, valid_keys = {}, failed_keys = {}\<rparr>"

definition initialize_imgbb_keys :: "string \<Rightarrow> 'a pool_scheme \<Rightarrow> 'a pool_scheme" where
  \<comment> \<open>The first argument is the environment variable \<open>IMGBB_API_KEY\<close>. The branch for an
      empty variable leaves \<open>current_key_index\<close> as it is.\<close>
  "initialize_imgbb_keys IMGBB_API_KEY p =
     (if IMGBB_API_KEY \<noteq> []
      then (let keys = filter (\<lambda>k. k \<noteq> []) (map py_strip (split_on CHR '','' IMGBB_API_KEY))
            in p\<lparr>current_imgbb_keys := keys, current_key_index := 0,
                  valid_keys := set keys, failed_keys := {}\<rparr>)
      else p\<lparr>current_imgbb_keys := [], valid_keys := {}, failed_keys := {}\<rparr>)"

definition get_current_imgbb_key :: "'a pool_scheme \<Rightarrow> string \<times> 'a pool_scheme" where
  \<comment> \<open>Returns the key and the globals: the fallback branch may reset the index.\<close>
  "get_current_imgbb_key p =
     (if current_imgbb_keys p = [] then ([], p)
      else (case filter (\<lambda>key. key \<in> valid_keys p \<and> key \<notin> failed_keys p) (current_imgbb_keys p) of
              key # _ \<Rightarrow> (key, p)
            | [] \<Rightarrow>
               (let p' = (if current_key_index p \<ge> length (current_imgbb_keys p)
                          then p\<lparr>current_key_index := 0\<rparr> else p)
                in (current_imgbb_keys p' ! current_key_index p', p'))))"

definition mark_key_as_valid :: "string \<Rightarrow> 'a pool_scheme \<Rightarrow> 'a pool_scheme" where
  "mark_key_as_valid key p =
     p\<lparr>valid_keys := insert key (valid_keys p), failed_keys := failed_keys p - {key}\<rparr>"

definition mark_key_as_failed :: "string \<Rightarrow> 'a pool_scheme \<Rightarrow> 'a pool_scheme" where
  "mark_key_as_failed key p =
     p\<lparr>failed_keys := insert key (failed_keys p), valid_keys := valid_keys p - {key}\<rparr>"

definition rotate_to_next_key :: "'a pool_scheme \<Rightarrow> 'a pool_scheme" where
  "rotate_to_next_key p =
     (if current_imgbb_keys p = [] then p
      else p\<lparr>current_key_index := (current_key_index p + 1) mod length (current_imgbb_keys p)\<rparr>)"

definition add_key :: "string \<Rightarrow> 'a pool_scheme \<Rightarrow> 'a pool_scheme" where
  \<comment> \<open>The program has no function of this name: every place that adds a credential runs
      \<open>current_imgbb_keys.append(new_key)\<close> and then \<open>mark_key_as_valid(new_key)\<close>
      (the orchestrator, the \<open>/addkey\<close> branch of the text handler, \<open>add_key_manual\<close>).\<close>
  "add_key new_key p =
     mark_key_as_valid new_key (p\<lparr>current_imgbb_keys := current_imgbb_keys p @ [new_key]\<rparr>)"

datatype pool_op =
    Initialize string
  | Add string
  | MarkValid string
  | MarkFailed string
  | Rotate
  | GetCurrent

fun apply_pool_op :: "pool_op \<Rightarrow> pool \<Rightarrow> pool" where
  "apply_pool_op (Initialize env) p = initialize_imgbb_keys env p"
| "apply_pool_op (Add k) p = add_key k p"
| "apply_pool_op (MarkValid k) p = mark_key_as_valid k p"
| "apply_pool_op (MarkFailed k) p = mark_key_as_failed k p"
| "apply_pool_op Rotate p = rotate_to_next_key p"
| "apply_pool_op GetCurrent p = snd (get_current_imgbb_key p)"

definition run_pool_ops :: "pool_op list \<Rightarrow> pool \<Rightarrow> pool" where
  "run_pool_ops ops p = foldl (\<lambda>q op. apply_pool_op op q) p ops"


section \<open>Archive members\<close>

definition is_image_filename :: "string \<Rightarrow> bool" where
  "is_image_filename name =
     list_ex (endswith (py_lower name)) [''.jpg'', ''.jpeg'', ''.png'', ''.gif'', ''.webp'']"

definition backslash :: char where
  "backslash = CHR 0x5C"

definition posix_parts :: "string \<Rightarrow> string list" where
  \<comment> \<open>\<open>Path(name).parts\<close> on a POSIX system (the service runs on Linux): the root, when the
      name starts with a slash (two slashes exactly give the root \<open>//\<close>), then the pieces
      between slashes that are neither empty nor a single dot.\<close>
  "posix_parts name =
     (let root = (if startswith name ''/''
                  then (if startswith name ''//'' \<and> \<not> startswith name ''///'' then [''//''] else [''/''])
                  else [])
      in root @ filter (\<lambda>x. x \<noteq> [] \<and> x \<noteq> ''.'') (split_on CHR ''/'' name))"

definition is_safe_member_name :: "string \<Rightarrow> bool" where
  "is_safe_member_name name =
     (if name = [] then False
      else if startswith name ''/'' \<or> startswith name [backslash] then False
      else if ''..'' \<in> set (posix_parts name) then False
      else if CHR '':'' \<in> set name \<and> (length name \<ge> 2 \<and> name ! 1 = CHR '':'') then False
      else if backslash \<in> set name then False
      else True)"

text \<open>
  What \<open>handle_container\<close> reads from the archive. A member has a name, the flag
  \<open>isreg()\<close> of a TAR member, and the outcome of reading it: its bytes, nothing (the 7z
  reader returns no entry, \<open>extractfile\<close> returns \<open>None\<close>), or an exception.
\<close>

datatype 'p read_outcome = Data 'p | Unavailable | Raises

record 'p member =
  member_name :: string
  isreg :: bool
  read_member :: "'p read_outcome"

datatype container_type = ZIP | SevenZ | TAR | Other

fun collect_members :: "bool \<Rightarrow> 'p member list \<Rightarrow> (string \<times> 'p) list option" where
  \<comment> \<open>The loop over the members, the same in the three branches but for an exception
      while reading: the ZIP and 7z branches catch it and go on, the TAR branch does not
      (the flag), and the whole of \<open>handle_container\<close> then ends in its handler.\<close>
  "collect_members catches [] = Some []"
| "collect_members catches (m # ms) =
     (if \<not> is_safe_member_name (member_name m) then collect_members catches ms
      else (case read_member m of
              Raises \<Rightarrow> (if catches then collect_members catches ms else None)
            | Unavailable \<Rightarrow> collect_members catches ms
            | Data d \<Rightarrow>
                (if is_image_filename (member_name m)
                 then map_option (\<lambda>rest. (member_name m, d) # rest) (collect_members catches ms)
                 else collect_members catches ms)))"

definition image_sources_of :: "container_type \<Rightarrow> 'p member list \<Rightarrow> (string \<times> 'p) list option" where
  \<comment> \<open>The list \<open>image_sources\<close> that \<open>handle_container\<close> builds and hands to the
      orchestrator; \<open>None\<close> when it ends before (unsupported format, exception).\<close>
  "image_sources_of container members =
     (case container of
        ZIP \<Rightarrow> collect_members True (filter (\<lambda>m. \<not> endswith (member_name m) ''/'') members)
      | SevenZ \<Rightarrow> collect_members True members
      | TAR \<Rightarrow> collect_members False (filter isreg members)
      | Other \<Rightarrow> None)"

text \<open>The words of the specification about member names.\<close>

definition has_traversal_segment :: "string \<Rightarrow> bool" where
  \<comment> \<open>\<open>..\<close> is one of the components of the name, cut at slashes and backslashes.\<close>
  "has_traversal_segment name =
     (''..'' \<in> set (split_where (\<lambda>c. c = CHR ''/'' \<or> c = backslash) name))"

definition is_absolute :: "string \<Rightarrow> bool" where
  "is_absolute name = (case name of [] \<Rightarrow> False | c # _ \<Rightarrow> c = CHR ''/'' \<or> c = backslash)"

definition has_drive_prefix :: "string \<Rightarrow> bool" where
  \<comment> \<open>A first character and a colon, as in \<open>C:\<close>.\<close>
  "has_drive_prefix name = (case name of c # d # _ \<Rightarrow> d = CHR '':'' | _ \<Rightarrow> False)"


section \<open>One upload\<close>

datatype json =
    JNull
  | JBool bool
  | JNum int
  | JStr string
  | JArr "json list"
  | JObj "(string \<times> json) list"

record response =
  status_code :: nat
  json_body :: "json option"  \<comment> \<open>\<open>r.json()\<close>; \<open>None\<close> when it raises\<close>

datatype post_outcome =
    Responds response
  | RaisesReadTimeout
  | RaisesOther string

datatype image_buffer = NoBuffer | ReadFails string | Readable string

text \<open>
  The \<open>error\<close> field of the result is a text for the user. The model keeps which message
  it is and what is interpolated into it, not the text Python gives to an exception.
\<close>

datatype raised = PostRaised string | BodyNotJson | AttributeError | TypeError

datatype upload_error =
    NoApiKeyProvided
  | ErrorLeyendoBuffer string
  | ApiKeyInvalidaOExpirada
  | ErrorEnUpload json
  | TimeoutAgotado
  | HTTPError nat
  | ErrorSubiendoImagen raised
  | ErrorDesconocido

datatype ('u, 'e) upload_result =
    Success 'u          \<comment> \<open>\<open>{"success": True, "url": u, "key_valid": True}\<close>\<close>
  | Failure 'e bool     \<comment> \<open>\<open>{"success": False, "error": e, "key_valid": b}\<close>\<close>

fun key_valid :: "('u, 'e) upload_result \<Rightarrow> bool" where
  "key_valid (Success u) = True"
| "key_valid (Failure e b) = b"

fun success :: "('u, 'e) upload_result \<Rightarrow> bool" where
  "success (Success u) = True"
| "success (Failure e b) = False"

fun py_get :: "json \<Rightarrow> string \<Rightarrow> json \<Rightarrow> json option" where
  \<comment> \<open>\<open>d.get(k, default)\<close>; \<open>None\<close> when \<open>d\<close> is no dict and the call raises.\<close>
  "py_get (JObj kvs) k d = Some (case map_of kvs k of Some v \<Rightarrow> v | None \<Rightarrow> d)"
| "py_get _ k d = None"

fun truthy :: "json \<Rightarrow> bool" where
  "truthy JNull = False"
| "truthy (JBool b) = b"
| "truthy (JNum n) = (n \<noteq> 0)"
| "truthy (JStr s) = (s \<noteq> [])"
| "truthy (JArr xs) = (xs \<noteq> [])"
| "truthy (JObj kvs) = (kvs \<noteq> [])"

definition error_message :: "response \<Rightarrow> string option" where
  \<comment> \<open>\<open>error_data.get("error", {}).get("message", "").lower()\<close> inside its \<open>try\<close>;
      \<open>None\<close> when any step raises (the bare \<open>except\<close> passes).\<close>
  "error_message r =
     (case json_body r of
        None \<Rightarrow> None
      | Some error_data \<Rightarrow>
          (case py_get error_data ''error'' (JObj []) of
             None \<Rightarrow> None
           | Some e \<Rightarrow>
               (case py_get e ''message'' (JStr []) of
                  Some (JStr m) \<Rightarrow> Some (py_lower m)
                | _ \<Rightarrow> None)))"

definition credential_words :: "string list" where
  "credential_words = [''key'', ''invalid'', ''expired'', ''missing'']"

definition mentions_credential :: "response \<Rightarrow> bool" where
  \<comment> \<open>\<open>any(word in error_message for word in [...])\<close>, false when the message could
      not be read.\<close>
  "mentions_credential r =
     (case error_message r of
        None \<Rightarrow> False
      | Some m \<Rightarrow> list_ex (\<lambda>word. py_in word m) credential_words)"

definition raise_for_status :: "response \<Rightarrow> bool" where
  \<comment> \<open>Whether \<open>r.raise_for_status()\<close> raises \<open>HTTPError\<close>.\<close>
  "raise_for_status r = (400 \<le> status_code r \<and> status_code r < 600)"

definition read_success_body :: "response \<Rightarrow> (json, upload_error) upload_result" where
  \<comment> \<open>From \<open>resp = r.json()\<close> to the end of the \<open>try\<close> block; every exception raised
      here reaches the handler \<open>except Exception\<close>. A body that is no dict has no
      \<open>get\<close>; \<open>"url" in resp["data"]\<close> is a key test on a dict, a substring test on a
      string, a membership test on a list, and raises on anything else; indexing a string
      or a list by \<open>"url"\<close> raises.\<close>
  "read_success_body r =
     (case json_body r of
        None \<Rightarrow> Failure (ErrorSubiendoImagen BodyNotJson) True
      | Some resp \<Rightarrow>
          (case resp of
             JObj kvs \<Rightarrow>
               (if \<not> truthy (case map_of kvs ''success'' of Some v \<Rightarrow> v | None \<Rightarrow> JNull)
                then Failure (ErrorEnUpload resp) True
                else (case map_of kvs ''data'' of
                        None \<Rightarrow> Failure (ErrorEnUpload resp) True
                      | Some (JObj dat) \<Rightarrow>
                          (case map_of dat ''url'' of
                             Some u \<Rightarrow> Success u
                           | None \<Rightarrow> Failure (ErrorEnUpload resp) True)
                      | Some (JStr t) \<Rightarrow>
                          (if py_in ''url'' t
                           then Failure (ErrorSubiendoImagen TypeError) True
                           else Failure (ErrorEnUpload resp) True)
                      | Some (JArr xs) \<Rightarrow>
                          (if JStr ''url'' \<in> set xs
                           then Failure (ErrorSubiendoImagen TypeError) True
                           else Failure (ErrorEnUpload resp) True)
                      | Some _ \<Rightarrow> Failure (ErrorSubiendoImagen TypeError) True))
           | _ \<Rightarrow> Failure (ErrorSubiendoImagen AttributeError) True))"

fun try_attempts ::
  "(nat \<Rightarrow> post_outcome) \<Rightarrow> nat \<Rightarrow> nat list \<Rightarrow> (json, upload_error) upload_result" where
  \<comment> \<open>The loop \<open>for attempt in range(1, retries + 1)\<close> over the attempts still to make;
      \<open>post attempt\<close> is what \<open>requests.post\<close> does at that attempt.\<close>
  "try_attempts post retries [] = Failure ErrorDesconocido True"
| "try_attempts post retries (attempt # rest) =
     (case post attempt of
        Responds r \<Rightarrow>
          (if status_code r = 400 \<and> mentions_credential r
           then Failure ApiKeyInvalidaOExpirada False
           else if raise_for_status r
           then (if status_code r = 400
                 then Failure (HTTPError (status_code r)) False
                 else Failure (HTTPError (status_code r)) True)
           else read_success_body r)
      | RaisesReadTimeout \<Rightarrow>
          (if attempt < retries then try_attempts post retries rest
           else Failure TimeoutAgotado True)
      | RaisesOther e \<Rightarrow> Failure (ErrorSubiendoImagen (PostRaised e)) True)"

definition upload_to_imgbb ::
  "(nat \<Rightarrow> post_outcome) \<Rightarrow> image_buffer \<Rightarrow> string \<Rightarrow> string \<Rightarrow> nat
     \<Rightarrow> (json, upload_error) upload_result" where
  \<comment> \<open>\<open>upload_to_imgbb(image_buffer, name, api_key, retries)\<close>; the payload (the key, the
      base64 text, the truncated stem of the name) goes to the service only and is not
      modelled, nor is the sleep between attempts.\<close>
  "upload_to_imgbb post image_buffer name api_key retries =
     (if api_key = [] then Failure NoApiKeyProvided False
      else (case image_buffer of
              ReadFails e \<Rightarrow> Failure (ErrorLeyendoBuffer e) True
            | _ \<Rightarrow> try_attempts post retries [1 ..< retries + 1]))"


section \<open>Soliciting a credential\<close>

text \<open>
  The two module-level dicts keyed by the chat: the snapshot of a suspended job and the
  listener that waits for the requester's reply. The \<open>status_msg\<close> of a snapshot is an
  object of the messaging transport and is left out, as are all messages sent to the chat.
\<close>

record listener =
  event_set :: bool
  response :: "string option"

record ('p, 'u) pending_state =
  pending_image_sources :: "(string \<times> 'p) list"
  current_index :: nat
  processed_links :: "(string \<times> 'u) list"
  pending_errors :: "string list"
  pending_chat_id :: int

record ('p, 'u) globals = pool +
  pending_key_requests :: "int \<rightharpoonup> ('p, 'u) pending_state"
  active_listeners :: "int \<rightharpoonup> listener"

text \<open>
  While the orchestrator waits, the transport delivers text messages to
  \<open>handle_text_messages\<close>, or the 300 seconds of the wait elapse. The messages to come are
  a list; when it is exhausted no message ever comes and the wait times out.
\<close>

datatype inbound = TextMessage int string | Elapsed

definition set_response :: "int \<Rightarrow> string \<Rightarrow> ('p, 'u) globals \<Rightarrow> ('p, 'u) globals" where
  \<comment> \<open>\<open>listener_data["response"] = r; listener_data["event"].set()\<close>\<close>
  "set_response chat_id r g =
     g\<lparr>active_listeners := (active_listeners g)(chat_id \<mapsto> \<lparr>event_set = True, response = Some r\<rparr>)\<rparr>"

definition handle_text_messages :: "int \<Rightarrow> string \<Rightarrow> ('p, 'u) globals \<Rightarrow> ('p, 'u) globals" where
  \<comment> \<open>The branch for a chat with no listener only touches \<open>last_post\<close> and the
      publishing service.\<close>
  "handle_text_messages chat_id message_text g =
     (let text = py_strip message_text
      in case active_listeners g chat_id of
           None \<Rightarrow> g
         | Some listener_data \<Rightarrow>
             (if py_lower text = ''/cancel'' then set_response chat_id ''/cancel'' g
              else if startswith text ''/addkey''
              then (case py_split_ws text of
                      p0 # p1 # _ \<Rightarrow>
                        (let new_key = py_strip p1
                         in if length new_key \<ge> 10
                            then set_response chat_id new_key (add_key new_key g)
                            else g)
                    | _ \<Rightarrow> g)
              else if length text \<ge> 10 then set_response chat_id text g
              else g))"

fun wait_for_event ::
  "int \<Rightarrow> inbound list \<Rightarrow> ('p, 'u) globals \<Rightarrow> bool \<times> inbound list \<times> ('p, 'u) globals" where
  \<comment> \<open>\<open>await asyncio.wait_for(event.wait(), timeout=300)\<close>: true when the event of the
      chat's listener was set, false on \<open>TimeoutError\<close>; with the messages left over.\<close>
  "wait_for_event chat_id [] g = (False, [], g)"
| "wait_for_event chat_id (Elapsed # rest) g = (False, rest, g)"
| "wait_for_event chat_id (TextMessage c t # rest) g =
     (let g' = handle_text_messages c t g
      in if (case active_listeners g' chat_id of Some l \<Rightarrow> event_set l | None \<Rightarrow> False)
         then (True, rest, g')
         else wait_for_event chat_id rest g')"

definition remove_listener :: "int \<Rightarrow> ('p, 'u) globals \<Rightarrow> ('p, 'u) globals" where
  \<comment> \<open>The \<open>finally\<close> block of \<open>request_new_key\<close>.\<close>
  "remove_listener chat_id g =
     (if chat_id \<in> dom (active_listeners g)
      then g\<lparr>active_listeners := (active_listeners g)(chat_id := None)\<rparr>
      else g)"

definition is_cancel :: "string option \<Rightarrow> bool" where
  \<comment> \<open>\<open>response_text and response_text.lower() == "/cancel"\<close>\<close>
  "is_cancel response_text =
     (case response_text of None \<Rightarrow> False | Some t \<Rightarrow> t \<noteq> [] \<and> py_lower t = ''/cancel'')"

definition long_enough :: "string option \<Rightarrow> bool" where
  \<comment> \<open>\<open>response_text and len(response_text) >= 10\<close>\<close>
  "long_enough response_text =
     (case response_text of None \<Rightarrow> False | Some t \<Rightarrow> t \<noteq> [] \<and> length t \<ge> 10)"

lemma wait_for_event_consumes:
  "wait_for_event chat_id msgs g = (True, msgs', g') \<Longrightarrow> length msgs' < length msgs"
proof (induction chat_id msgs g rule: wait_for_event.induct)
  case (3 chat_id c t rest g)
  then show ?case
    by (fastforce simp: Let_def split: if_splits)
qed simp_all

function request_new_key ::
  "int \<Rightarrow> inbound list \<Rightarrow> ('p, 'u) globals \<Rightarrow> string option \<times> inbound list \<times> ('p, 'u) globals" where
  \<comment> \<open>Returns the credential (\<open>None\<close> on cancel and on timeout), the messages left over
      and the globals. The listener is removed on every way out, also the way out of the
      outer call after the inner one has returned.\<close>
  "request_new_key chat_id msgs g =
     (let g1 = g\<lparr>active_listeners :=
                   (active_listeners g)(chat_id \<mapsto> \<lparr>event_set = False, response = None\<rparr>)\<rparr>
      in case wait_for_event chat_id msgs g1 of
           (signalled, msgs', g2) \<Rightarrow>
             (if \<not> signalled then (None, msgs', remove_listener chat_id g2)
              else (let response_text =
                          (case active_listeners g2 chat_id of
                             None \<Rightarrow> None
                           | Some response_data \<Rightarrow> response response_data)
                    in if is_cancel response_text
                       then (None, msgs', remove_listener chat_id g2)
                       else if long_enough response_text
                       then (response_text, msgs', remove_listener chat_id g2)
                       else (case request_new_key chat_id msgs' g2 of
                               (r, msgs'', g3) \<Rightarrow> (r, msgs'', remove_listener chat_id g3)))))"
  by pat_completeness auto
termination
  by (relation "measure (\<lambda>(chat_id, msgs, g). length msgs)")
     (auto dest: wait_for_event_consumes sym)

declare request_new_key.simps [simp del]


section \<open>The upload orchestrator\<close>

text \<open>
  The state of one run of \<open>process_and_upload_images\<close>: the globals, the messages to come,
  the number of uploads made so far, and the local variables of the coroutine. Two
  collaborators are parameters: \<open>validar\<close> is \<open>validar_y_reparar_imagen\<close> (\<open>None\<close> when
  the image cannot be decoded), and \<open>upload t name buf key\<close> is the result of the call
  \<open>upload_to_imgbb(buf, name=name, api_key=key)\<close> made as upload number \<open>t\<close> of the run,
  so the service may answer the same request differently at different times.
  The progress message and the pause after each item are left out.
\<close>

record ('p, 'u) job =
  glob :: "('p, 'u) globals"
  inbox :: "inbound list"
  clock :: nat
  idx :: nat
  links :: "(string \<times> 'u) list"
  errors :: "string list"
  current_key :: string
  consecutive_successes :: nat

datatype 's step = Return 's | Continue 's

definition decode_error_entry :: "string \<Rightarrow> string" where
  \<comment> \<open>\<open>f"No pude procesar {name}"\<close>\<close>
  "decode_error_entry name = ''No pude procesar '' @ name"

definition upload_error_entry :: "string \<Rightarrow> string \<Rightarrow> string" where
  \<comment> \<open>\<open>f"{name}: {result['error']}"\<close>\<close>
  "upload_error_entry name err = name @ '': '' @ err"

definition suspend_job ::
  "(string \<times> 'p) list \<Rightarrow> int \<Rightarrow> ('p, 'u) job \<Rightarrow> ('p, 'u) job" where
  \<comment> \<open>The key was refused: \<open>mark_key_as_failed(current_key)\<close> and the snapshot stored in
      \<open>pending_key_requests[chat_id]\<close>. Here \<open>idx\<close> has been advanced already.\<close>
  "suspend_job srcs chat_id s =
     (let g = mark_key_as_failed (current_key s) (glob s);
          pending_state = \<lparr>pending_image_sources = srcs, current_index = idx s - 1,
                           processed_links = links s, pending_errors = errors s,
                           pending_chat_id = chat_id\<rparr>
      in s\<lparr>glob := g\<lparr>pending_key_requests := (pending_key_requests g)(chat_id \<mapsto> pending_state)\<rparr>\<rparr>)"

definition resume_with ::
  "string \<Rightarrow> inbound list \<Rightarrow> ('p, 'u) globals \<Rightarrow> ('p, 'u) job \<Rightarrow> ('p, 'u) job" where
  \<comment> \<open>A new key came: it is appended, made current and marked valid, and \<open>idx\<close> steps
      back to the item that was refused.\<close>
  "resume_with new_key inbox' g s =
     s\<lparr>glob := mark_key_as_valid new_key
                  (g\<lparr>current_imgbb_keys := current_imgbb_keys g @ [new_key]\<rparr>),
       inbox := inbox',
       current_key := new_key,
       idx := idx s - 1\<rparr>"

definition loop_body ::
  "('p \<Rightarrow> 'b option) \<Rightarrow> (nat \<Rightarrow> string \<Rightarrow> 'b \<Rightarrow> string \<Rightarrow> ('u, string) upload_result)
     \<Rightarrow> (string \<times> 'p) list \<Rightarrow> int \<Rightarrow> ('p, 'u) job \<Rightarrow> ('p, 'u) job step" where
  \<comment> \<open>One pass through the body of \<open>while idx < total\<close>; \<open>Return\<close> is the
      \<open>return links, errors\<close> after a cancelled or timed-out solicitation.\<close>
  "loop_body validar upload srcs chat_id s0 =
     (case srcs ! idx s0 of
        (name, payload) \<Rightarrow>
          (let s = s0\<lparr>idx := idx s0 + 1\<rparr>
           in case validar payload of
                None \<Rightarrow> Continue (s\<lparr>errors := errors s @ [decode_error_entry name]\<rparr>)
              | Some buf \<Rightarrow>
                  (case upload (clock s) name buf (current_key s) of
                     Success url \<Rightarrow>
                       (let n = consecutive_successes s + 1;
                            s1 = s\<lparr>clock := clock s + 1, links := links s @ [(name, url)],
                                   consecutive_successes := n\<rparr>
                        in Continue (if n \<ge> 3
                                     then s1\<lparr>glob := mark_key_as_valid (current_key s1) (glob s1)\<rparr>
                                     else s1))
                   | Failure err kv \<Rightarrow>
                       (let s1 = s\<lparr>clock := clock s + 1, consecutive_successes := 0\<rparr>
                        in if \<not> kv
                           then (let s2 = suspend_job srcs chat_id s1
                                 in case request_new_key chat_id (inbox s2) (glob s2) of
                                      (None, inbox', g) \<Rightarrow> Return (s2\<lparr>glob := g, inbox := inbox'\<rparr>)
                                    | (Some new_key, inbox', g) \<Rightarrow>
                                        Continue (resume_with new_key inbox' g s2))
                           else Continue (s1\<lparr>errors := errors s1 @ [upload_error_entry name err]\<rparr>)))))"

definition finish_batch :: "('p, 'u) job \<Rightarrow> ('p, 'u) job" where
  \<comment> \<open>After the loop: \<open>if consecutive_successes > 0: mark_key_as_valid(current_key)\<close>.\<close>
  "finish_batch s =
     (if consecutive_successes s > 0
      then s\<lparr>glob := mark_key_as_valid (current_key s) (glob s)\<rparr>
      else s)"

definition suspended :: "(string \<times> 'p) list \<Rightarrow> int \<Rightarrow> ('p, 'u) job \<Rightarrow> ('p, 'u) job" where
  \<comment> \<open>The state in which \<open>request_new_key\<close> is called, from the state at the top of
      the iteration whose upload was refused.\<close>
  "suspended srcs chat_id s =
     suspend_job srcs chat_id (s\<lparr>idx := idx s + 1, clock := clock s + 1, consecutive_successes := 0\<rparr>)"

text \<open>The body of the loop, one equation for each way through it.\<close>

lemma request_new_key_consumes:
  "request_new_key chat_id msgs g = (Some k, msgs', g') \<Longrightarrow> length msgs' < length msgs"
proof (induction chat_id msgs g arbitrary: msgs' g' rule: request_new_key.induct)
  case (1 chat_id msgs g)
  let ?g1 = "g\<lparr>active_listeners :=
                 (active_listeners g)(chat_id \<mapsto> \<lparr>event_set = False, response = None\<rparr>)\<rparr>"
  obtain signalled msgs1 g2 where w: "wait_for_event chat_id msgs ?g1 = (signalled, msgs1, g2)"
    by (cases "wait_for_event chat_id msgs ?g1") auto
  from "1.prems" w have sig: signalled
    by (subst (asm) request_new_key.simps) (auto simp: Let_def split: if_splits)
  with w have lt: "length msgs1 < length msgs"
    by (auto dest: wait_for_event_consumes)
  let ?rt = "case active_listeners g2 chat_id of None \<Rightarrow> None | Some d \<Rightarrow> response d"
  show ?case
  proof (cases "is_cancel ?rt \<or> long_enough ?rt")
    case True
    with "1.prems" w sig lt show ?thesis
      by (subst (asm) request_new_key.simps) (auto simp: Let_def split: if_splits)
  next
    case False
    obtain r msgs2 g3 where rec: "request_new_key chat_id msgs1 g2 = (r, msgs2, g3)"
      by (cases "request_new_key chat_id msgs1 g2") auto
    from "1.prems" w sig False rec have "r = Some k" "msgs2 = msgs'"
      by (subst (asm) request_new_key.simps, simp add: Let_def)+
    with "1.IH" [OF refl w [symmetric] refl _ refl _ _ ] w sig False rec
    have "length msgs' < length msgs1" by auto
    with lt show ?thesis by simp
  qed
qed

lemma loop_body_undecodable:
  assumes "srcs ! idx s = (name, payload)" and "validar payload = None"
  shows "loop_body validar upload srcs chat_id s =
           Continue (s\<lparr>idx := idx s + 1, errors := errors s @ [decode_error_entry name]\<rparr>)"
  using assms by (simp add: loop_body_def)

lemma loop_body_success:
  assumes "srcs ! idx s = (name, payload)" and "validar payload = Some buf"
    and "upload (clock s) name buf (current_key s) = Success url"
  shows "loop_body validar upload srcs chat_id s =
           Continue (let s1 = s\<lparr>idx := idx s + 1, clock := clock s + 1,
                                   links := links s @ [(name, url)],
                                   consecutive_successes := consecutive_successes s + 1\<rparr>
                     in if consecutive_successes s + 1 \<ge> 3
                        then s1\<lparr>glob := mark_key_as_valid (current_key s) (glob s)\<rparr>
                        else s1)"
  using assms by (simp add: loop_body_def Let_def)

lemma loop_body_item_error:
  assumes "srcs ! idx s = (name, payload)" and "validar payload = Some buf"
    and "upload (clock s) name buf (current_key s) = Failure err True"
  shows "loop_body validar upload srcs chat_id s =
           Continue (s\<lparr>idx := idx s + 1, clock := clock s + 1, consecutive_successes := 0,
                       errors := errors s @ [upload_error_entry name err]\<rparr>)"
  using assms by (simp add: loop_body_def Let_def)

lemma loop_body_key_suspended:
  assumes "srcs ! idx s = (name, payload)" and "validar payload = Some buf"
    and "upload (clock s) name buf (current_key s) = Failure err False"
  shows "loop_body validar upload srcs chat_id s =
           (let s2 = suspended srcs chat_id s
            in case request_new_key chat_id (inbox s2) (glob s2) of
                 (None, msgs', g) \<Rightarrow> Return (s2\<lparr>glob := g, inbox := msgs'\<rparr>)
               | (Some new_key, msgs', g) \<Rightarrow> Continue (resume_with new_key msgs' g s2))"
  using assms by (simp add: loop_body_def Let_def suspended_def)

lemma loop_body_decreases:
  assumes "loop_body validar upload srcs chat_id s = Continue s'"
  shows "length (inbox s') < length (inbox s)
         \<or> (length (inbox s') = length (inbox s) \<and> idx s' = idx s + 1)"
proof -
  obtain name payload where item: "srcs ! idx s = (name, payload)"
    by (cases "srcs ! idx s") auto
  show ?thesis
  proof (cases "validar payload")
    case None
    with assms item show ?thesis by (auto simp: loop_body_undecodable)
  next
    case (Some buf)
    show ?thesis
    proof (cases "upload (clock s) name buf (current_key s)")
      case (Success url)
      with assms item Some show ?thesis
        by (auto simp: loop_body_success [where validar = validar and upload = upload] Let_def split: if_splits)
    next
      case (Failure err kv)
      show ?thesis
      proof (cases kv)
        case True
        with assms item Some Failure show ?thesis
          by (auto simp: loop_body_item_error)
      next
        case False
        let ?s2 = "suspended srcs chat_id s"
        obtain r msgs' g where rq: "request_new_key chat_id (inbox ?s2) (glob ?s2) = (r, msgs', g)"
          by (cases "request_new_key chat_id (inbox ?s2) (glob ?s2)") auto
        from assms item Some Failure False rq obtain k where k: "r = Some k"
          and s': "s' = resume_with k msgs' g ?s2"
          by (cases r) (auto simp: loop_body_key_suspended Let_def)
        from rq k have "length msgs' < length (inbox ?s2)"
          by (auto dest: request_new_key_consumes)
        then show ?thesis
          by (simp add: s' resume_with_def suspended_def suspend_job_def Let_def)
      qed
    qed
  qed
qed


function upload_loop ::
  "('p \<Rightarrow> 'b option) \<Rightarrow> (nat \<Rightarrow> string \<Rightarrow> 'b \<Rightarrow> string \<Rightarrow> ('u, string) upload_result)
     \<Rightarrow> (string \<times> 'p) list \<Rightarrow> int \<Rightarrow> ('p, 'u) job \<Rightarrow> ('p, 'u) job" where
  \<comment> \<open>\<open>while idx < total: ...\<close> and what follows it, up to the \<open>return\<close>.\<close>
  "upload_loop validar upload srcs chat_id s =
     (if idx s < length srcs
      then (case loop_body validar upload srcs chat_id s of
              Return r \<Rightarrow> r
            | Continue s' \<Rightarrow> upload_loop validar upload srcs chat_id s')
      else finish_batch s)"
  by pat_completeness auto
termination
proof (relation "measures [\<lambda>(validar, upload, srcs, chat_id, s). length (inbox s),
                           \<lambda>(validar, upload, srcs, chat_id, s). length srcs - idx s]")
  show "wf (measures [\<lambda>(validar, upload, srcs, chat_id, s). length (inbox s),
                      \<lambda>(validar, upload, srcs, chat_id, s :: ('p, 'u) job). length srcs - idx s])"
    by simp
next
  fix validar :: "'p \<Rightarrow> 'b option"
    and upload :: "nat \<Rightarrow> string \<Rightarrow> 'b \<Rightarrow> string \<Rightarrow> ('u, string) upload_result"
    and srcs :: "(string \<times> 'p) list" and chat_id :: int and s s' :: "('p, 'u) job"
  assume "idx s < length srcs" and "loop_body validar upload srcs chat_id s = Continue s'"
  then show "((validar, upload, srcs, chat_id, s'), (validar, upload, srcs, chat_id, s))
       \<in> measures [\<lambda>(validar, upload, srcs, chat_id, s). length (inbox s),
                    \<lambda>(validar, upload, srcs, chat_id, s). length srcs - idx s]"
    using loop_body_decreases [of validar upload srcs chat_id s s'] by auto
qed

declare upload_loop.simps [simp del]

definition sort_by_name :: "(string \<times> 'p) list \<Rightarrow> (string \<times> 'p) list" where
  \<comment> \<open>\<open>image_sources.sort(key=lambda x: x[0].lower())\<close>: a stable sort.\<close>
  "sort_by_name image_sources = sort_key (\<lambda>x. py_lower (fst x)) image_sources"

definition start_job :: "inbound list \<Rightarrow> ('p, 'u) globals \<Rightarrow> string \<Rightarrow> ('p, 'u) job" where
  \<comment> \<open>The locals as assigned before the loop: \<open>links = []\<close>, \<open>errors = []\<close>,
      \<open>idx = 0\<close>, \<open>consecutive_successes = 0\<close>.\<close>
  "start_job messages g key =
     \<lparr>glob = g, inbox = messages, clock = 0, idx = 0, links = [], errors = [],
      current_key = key, consecutive_successes = 0\<rparr>"

definition process_and_upload_images ::
  "('p \<Rightarrow> 'b option) \<Rightarrow> (nat \<Rightarrow> string \<Rightarrow> 'b \<Rightarrow> string \<Rightarrow> ('u, string) upload_result)
     \<Rightarrow> (string \<times> 'p) list \<Rightarrow> int \<Rightarrow> inbound list \<Rightarrow> ('p, 'u) globals \<Rightarrow> ('p, 'u) job" where
  \<comment> \<open>Returns the state at the \<open>return\<close>; the value returned is its \<open>links\<close> and
      \<open>errors\<close>.\<close>
  "process_and_upload_images validar upload image_sources chat_id messages g =
     (let srcs = sort_by_name image_sources
      in if current_imgbb_keys g = [] then start_job messages g []
         else (case get_current_imgbb_key g of
                 (key, g') \<Rightarrow>
                   (if key = [] then start_job messages g' key
                    else upload_loop validar upload srcs chat_id (start_job messages g' key))))"

definition img_urls :: "('p, 'u) job \<Rightarrow> 'u list" where
  \<comment> \<open>\<open>[link for _, link in links]\<close> in \<open>handle_container\<close>: the gallery's images.\<close>
  "img_urls s = map snd (links s)"


section \<open>Notions used to state the properties\<close>

fun after_iterations ::
  "('p \<Rightarrow> 'b option) \<Rightarrow> (nat \<Rightarrow> string \<Rightarrow> 'b \<Rightarrow> string \<Rightarrow> ('u, string) upload_result)
     \<Rightarrow> (string \<times> 'p) list \<Rightarrow> int \<Rightarrow> nat \<Rightarrow> ('p, 'u) job \<Rightarrow> ('p, 'u) job option" where
  \<comment> \<open>The state at the top of the loop after \<open>n\<close> more passes through its body;
      \<open>None\<close> when the run ends before.\<close>
  "after_iterations validar upload srcs chat_id 0 s = Some s"
| "after_iterations validar upload srcs chat_id (Suc n) s =
     (if idx s < length srcs
      then (case loop_body validar upload srcs chat_id s of
              Return r \<Rightarrow> None
            | Continue s' \<Rightarrow> after_iterations validar upload srcs chat_id n s')
      else None)"

inductive accounts_for ::
  "(string \<times> 'p) list \<Rightarrow> (string \<times> 'u) list \<Rightarrow> string list \<Rightarrow> bool" where
  \<comment> \<open>The links and the errors are what a list of items has left: each item, in order,
      has one link or one error entry, and there is no other entry.\<close>
  nothing: "accounts_for [] [] []"
| uploaded: "accounts_for items ls es \<Longrightarrow>
      accounts_for ((name, payload) # items) ((name, url) # ls) es"
| undecodable: "accounts_for items ls es \<Longrightarrow>
      accounts_for ((name, payload) # items) ls (decode_error_entry name # es)"
| failed: "accounts_for items ls es \<Longrightarrow>
      accounts_for ((name, payload) # items) ls (upload_error_entry name err # es)"

code_pred accounts_for .

fun successes ::
  "('p \<Rightarrow> 'b option) \<Rightarrow> (string \<Rightarrow> 'b \<Rightarrow> string \<Rightarrow> ('u, string) upload_result) \<Rightarrow> string
     \<Rightarrow> (string \<times> 'p) list \<Rightarrow> (string \<times> 'u) list" where
  \<comment> \<open>The items that decode and upload under one key, with their links, in order.\<close>
  "successes validar up key [] = []"
| "successes validar up key ((name, payload) # items) =
     (case validar payload of
        None \<Rightarrow> successes validar up key items
      | Some buf \<Rightarrow>
          (case up name buf key of
             Success url \<Rightarrow> (name, url) # successes validar up key items
           | Failure err kv \<Rightarrow> successes validar up key items))"


inductive outcomes_of ::
  "('p \<Rightarrow> 'b option) \<Rightarrow> (nat \<Rightarrow> string \<Rightarrow> 'b \<Rightarrow> string \<Rightarrow> ('u, string) upload_result)
     \<Rightarrow> (string \<times> 'p) list \<Rightarrow> (string \<times> 'u) list \<Rightarrow> string list \<Rightarrow> bool"
  for validar upload where
  \<comment> \<open>As \<open>accounts_for\<close>, and each entry is what the collaborators answered for its
      item: a link carries the URL of a successful upload of the decoded image, a decode
      error stands for an image that does not decode, an upload error for an upload that
      failed with the key still valid.\<close>
  none: "outcomes_of validar upload [] [] []"
| link: "outcomes_of validar upload items ls es \<Longrightarrow> validar payload = Some buf \<Longrightarrow>
      upload t name buf key = Success url \<Longrightarrow>
      outcomes_of validar upload ((name, payload) # items) ((name, url) # ls) es"
| no_image: "outcomes_of validar upload items ls es \<Longrightarrow> validar payload = None \<Longrightarrow>
      outcomes_of validar upload ((name, payload) # items) ls (decode_error_entry name # es)"
| no_upload: "outcomes_of validar upload items ls es \<Longrightarrow> validar payload = Some buf \<Longrightarrow>
      upload t name buf key = Failure err True \<Longrightarrow>
      outcomes_of validar upload ((name, payload) # items) ls (upload_error_entry name err # es)"

code_pred outcomes_of .

definition refused_at ::
  "('p \<Rightarrow> 'b option) \<Rightarrow> (nat \<Rightarrow> string \<Rightarrow> 'b \<Rightarrow> string \<Rightarrow> ('u, string) upload_result)
     \<Rightarrow> (string \<times> 'p) list \<Rightarrow> nat \<Rightarrow> bool" where
  \<comment> \<open>Item \<open>n\<close> of the batch decodes and an upload of it was refused for its key.\<close>
  "refused_at validar upload srcs n =
     (n < length srcs \<and>
      (\<exists>t buf key err. validar (snd (srcs ! n)) = Some buf
          \<and> upload t (fst (srcs ! n)) buf key = Failure err False))"

definition outcomes_known ::
  "('p \<Rightarrow> 'b option) \<Rightarrow> (nat \<Rightarrow> string \<Rightarrow> 'b \<Rightarrow> string \<Rightarrow> ('u, string) upload_result)
     \<Rightarrow> (string \<times> 'p) list \<Rightarrow> ('p, 'u) job \<Rightarrow> bool" where
  \<comment> \<open>The loop invariant with the answers: the links and errors are the outcomes of
      the items before \<open>idx\<close>.\<close>
  "outcomes_known validar upload srcs s =
     (idx s \<le> length srcs \<and> outcomes_of validar upload (take (idx s) srcs) (links s) (errors s))"


section \<open>Example runs\<close>

text \<open>
  A pool holding one key, a batch of three images that all decode, and a service that
  refuses the first key for \<open>b.png\<close> and accepts every other upload.
\<close>

definition example_globals :: "(string, string) globals" where
  "example_globals =
     \<lparr>current_imgbb_keys = [''key-aaaaaaaa''], current_key_index = 0,
      valid_keys = {''key-aaaaaaaa''}, failed_keys = {},
      pending_key_requests = Map.empty, active_listeners = Map.empty\<rparr>"

definition example_batch :: "(string \<times> string) list" where
  "example_batch = [(''b.png'', ''B''), (''a.jpg'', ''A''), (''c.webp'', ''C'')]"

definition example_validar :: "string \<Rightarrow> string option" where
  "example_validar payload = Some payload"

definition example_up :: "string \<Rightarrow> string \<Rightarrow> string \<Rightarrow> (string, string) upload_result" where
  "example_up name buf key =
     (if key = ''key-aaaaaaaa'' \<and> name = ''b.png'' then Failure ''API key'' False
      else Success (''https://i.ibb.co/'' @ name))"

definition example_upload :: "nat \<Rightarrow> string \<Rightarrow> string \<Rightarrow> string \<Rightarrow> (string, string) upload_result" where
  "example_upload t = example_up"

text \<open>The example run at the top of its second pass, after \<open>a.jpg\<close> was uploaded.\<close>

definition example_state :: "inbound list \<Rightarrow> (string, string) job" where
  "example_state messages =
     \<lparr>glob = example_globals, inbox = messages, clock = 1, idx = 1,
      links = [(''a.jpg'', ''https://i.ibb.co/a.jpg'')], errors = [],
      current_key = ''key-aaaaaaaa'', consecutive_successes = 1\<rparr>"

text \<open>A pool holding the second key only, for a run that never changes its key.\<close>

definition second_globals :: "(string, string) globals" where
  "second_globals =
     \<lparr>current_imgbb_keys = [''key-bbbbbbbb''], current_key_index = 0,
      valid_keys = {''key-bbbbbbbb''}, failed_keys = {},
      pending_key_requests = Map.empty, active_listeners = Map.empty\<rparr>"


definition bad_request :: response where
  "bad_request =
     \<lparr>status_code = 400,
      json_body = Some (JObj [(''status_code'', JNum 400),
                              (''error'', JObj [(''message'', JStr ''Empty upload source.''),
                                                (''code'', JNum 130)])])\<rparr>"

definition always_bad_request :: "nat \<Rightarrow> post_outcome" where
  "always_bad_request attempt = Responds bad_request"

definition timeout_then_bad_request :: "nat \<Rightarrow> post_outcome" where
  "timeout_then_bad_request attempt = (if attempt = 1 then RaisesReadTimeout else Responds bad_request)"

text \<open>The loop invariant: the items before \<open>idx\<close> are accounted for.\<close>

definition accounted :: "(string \<times> 'p) list \<Rightarrow> ('p, 'u) job \<Rightarrow> bool" where
  "accounted srcs s = (idx s \<le> length srcs \<and> accounts_for (take (idx s) srcs) (links s) (errors s))"


section \<open>Properties of the credential pool\<close>

lemma apply_pool_op_disjoint:
  "valid_keys p \<inter> failed_keys p = {} \<Longrightarrow>
   valid_keys (apply_pool_op op p) \<inter> failed_keys (apply_pool_op op p) = {}"
  by (cases op)
     (auto simp: initialize_imgbb_keys_def add_key_def mark_key_as_valid_def
        mark_key_as_failed_def rotate_to_next_key_def get_current_imgbb_key_def Let_def
        split: list.splits)

lemma apply_pool_op_covered:
  "set (current_imgbb_keys p) \<subseteq> valid_keys p \<union> failed_keys p \<Longrightarrow>
   set (current_imgbb_keys (apply_pool_op op p))
     \<subseteq> valid_keys (apply_pool_op op p) \<union> failed_keys (apply_pool_op op p)"
  by (cases op)
     (auto simp: initialize_imgbb_keys_def add_key_def mark_key_as_valid_def
        mark_key_as_failed_def rotate_to_next_key_def get_current_imgbb_key_def Let_def
        split: list.splits)

lemma run_pool_ops_snoc:
  "run_pool_ops (ops @ [op]) p = apply_pool_op op (run_pool_ops ops p)"
  by (simp add: run_pool_ops_def)

lemma run_pool_ops_disjoint:
  "valid_keys p \<inter> failed_keys p = {} \<Longrightarrow>
   valid_keys (run_pool_ops ops p) \<inter> failed_keys (run_pool_ops ops p) = {}"
proof (induction ops rule: rev_induct)
  case Nil
  then show ?case by (simp add: run_pool_ops_def)
next
  case (snoc op ops)
  then show ?case
    by (simp only: run_pool_ops_snoc apply_pool_op_disjoint)
qed

lemma run_pool_ops_covered:
  "set (current_imgbb_keys p) \<subseteq> valid_keys p \<union> failed_keys p \<Longrightarrow>
   set (current_imgbb_keys (run_pool_ops ops p))
     \<subseteq> valid_keys (run_pool_ops ops p) \<union> failed_keys (run_pool_ops ops p)"
proof (induction ops rule: rev_induct)
  case Nil
  then show ?case by (simp add: run_pool_ops_def)
next
  case (snoc op ops)
  then show ?case
    by (simp only: run_pool_ops_snoc apply_pool_op_covered)
qed

lemma get_current_not_failed:
  assumes cov: "set (current_imgbb_keys p) \<subseteq> valid_keys p \<union> failed_keys p"
    and k': "k' \<in> set (current_imgbb_keys p)" "k' \<notin> failed_keys p"
  shows "fst (get_current_imgbb_key p) \<notin> failed_keys p"
proof -
  let ?av = "filter (\<lambda>key. key \<in> valid_keys p \<and> key \<notin> failed_keys p) (current_imgbb_keys p)"
  from cov k' have "k' \<in> set ?av" by auto
  then obtain key rest where av: "?av = key # rest" by (cases ?av) auto
  then have "key \<in> set ?av" by simp
  then have "key \<notin> failed_keys p" by simp
  moreover from k' av have "fst (get_current_imgbb_key p) = key"
    by (auto simp: get_current_imgbb_key_def)
  ultimately show ?thesis by simp
qed

text \<open>
  Claim C10. After every sequence of pool operations, starting from the globals as the
  module defines them, no credential is in \<open>valid_keys\<close> and in \<open>failed_keys\<close> at once.
\<close>

theorem pool_sets_disjoint:
  "valid_keys (run_pool_ops ops module_globals) \<inter> failed_keys (run_pool_ops ops module_globals) = {}"
  by (rule run_pool_ops_disjoint) (simp add: module_globals_def)

text \<open>
  Claim C5, as amended. In every state the pool operations can reach, a credential that
  is in \<open>failed_keys\<close> is not returned by \<open>get_current_imgbb_key\<close> while the pool holds a
  credential that is not in \<open>failed_keys\<close>.
\<close>

theorem failed_key_not_current:
  assumes "p = run_pool_ops ops module_globals"
    and "k \<in> failed_keys p"
    and "k' \<in> set (current_imgbb_keys p)" and "k' \<notin> failed_keys p"
  shows "fst (get_current_imgbb_key p) \<noteq> k"
proof -
  have "set (current_imgbb_keys p) \<subseteq> valid_keys p \<union> failed_keys p"
    unfolding assms(1) by (rule run_pool_ops_covered) (simp add: module_globals_def)
  from get_current_not_failed [OF this assms(3,4)] assms(2) show ?thesis by auto
qed

lemma init_ab: "initialize_imgbb_keys ''key-aaaaaaaa,key-bbbbbbbb'' module_globals =
  \<lparr>current_imgbb_keys = [''key-aaaaaaaa'', ''key-bbbbbbbb''], current_key_index = 0,
    valid_keys = {''key-aaaaaaaa'', ''key-bbbbbbbb''}, failed_keys = {}\<rparr>"
  by (simp add: initialize_imgbb_keys_def module_globals_def split_on_def py_strip_def py_isspace_def)

theorem failed_key_not_current_witness:
  "fst (get_current_imgbb_key
         (run_pool_ops [Initialize ''key-aaaaaaaa,key-bbbbbbbb'', MarkFailed ''key-aaaaaaaa'']
            module_globals)) \<noteq> ''key-aaaaaaaa''"
  using failed_key_not_current
    [of "run_pool_ops [Initialize ''key-aaaaaaaa,key-bbbbbbbb'', MarkFailed ''key-aaaaaaaa''] module_globals"
        "[Initialize ''key-aaaaaaaa,key-bbbbbbbb'', MarkFailed ''key-aaaaaaaa'']"
        "''key-aaaaaaaa''" "''key-bbbbbbbb''"]
  by (simp add: run_pool_ops_def init_ab mark_key_as_failed_def)

text \<open>
  Claim C5 as stated does not hold: a credential that was marked failed and is added
  again is marked valid by that, and is returned while another credential that never
  failed is in the pool.
\<close>

theorem revived_key_is_current:
  "''key-aaaaaaaa'' \<in> failed_keys
         (run_pool_ops [Initialize ''key-aaaaaaaa,key-bbbbbbbb'', MarkFailed ''key-aaaaaaaa'']
            module_globals)
   \<and> fst (get_current_imgbb_key
         (run_pool_ops [Initialize ''key-aaaaaaaa,key-bbbbbbbb'', MarkFailed ''key-aaaaaaaa'',
                        Add ''key-aaaaaaaa''] module_globals)) = ''key-aaaaaaaa''
   \<and> ''key-bbbbbbbb'' \<in> set (current_imgbb_keys
         (run_pool_ops [Initialize ''key-aaaaaaaa,key-bbbbbbbb'', MarkFailed ''key-aaaaaaaa'',
                        Add ''key-aaaaaaaa''] module_globals))
   \<and> ''key-bbbbbbbb'' \<notin> failed_keys
         (run_pool_ops [Initialize ''key-aaaaaaaa,key-bbbbbbbb'', MarkFailed ''key-aaaaaaaa'',
                        Add ''key-aaaaaaaa''] module_globals)"
  by (simp add: run_pool_ops_def init_ab mark_key_as_failed_def add_key_def mark_key_as_valid_def
      get_current_imgbb_key_def)


section \<open>Properties of the member filter\<close>

lemma split_where_cong:
  "(\<And>c. c \<in> set s \<Longrightarrow> P c = Q c) \<Longrightarrow> split_where P s = split_where Q s"
  by (induction s) auto

lemma traversal_in_parts:
  assumes "has_traversal_segment name" and "backslash \<notin> set name"
  shows "''..'' \<in> set (posix_parts name)"
proof -
  from assms(2) have "split_where (\<lambda>c. c = CHR ''/'' \<or> c = backslash) name
      = split_where (\<lambda>c. c = CHR ''/'') name"
    by (intro split_where_cong) auto
  with assms(1) have "''..'' \<in> set (split_on CHR ''/'' name)"
    by (simp add: has_traversal_segment_def split_on_def)
  then show ?thesis by (simp add: posix_parts_def Let_def)
qed

lemma unsafe_name_refused:
  assumes "name = [] \<or> has_traversal_segment name \<or> is_absolute name
           \<or> has_drive_prefix name \<or> backslash \<in> set name"
  shows "\<not> is_safe_member_name name"
proof (cases "backslash \<in> set name \<or> name = []")
  case True
  then show ?thesis by (auto simp: is_safe_member_name_def)
next
  case False
  with assms consider "has_traversal_segment name" | "is_absolute name" | "has_drive_prefix name"
    by auto
  then show ?thesis
  proof cases
    case 1
    with False have "''..'' \<in> set (posix_parts name)" by (simp add: traversal_in_parts)
    then show ?thesis by (simp add: is_safe_member_name_def)
  next
    case 2
    then show ?thesis
      by (auto simp: is_safe_member_name_def is_absolute_def startswith_def split: list.splits)
  next
    case 3
    then show ?thesis
      by (auto simp: is_safe_member_name_def has_drive_prefix_def split: list.splits)
  qed
qed

lemma collect_members_safe:
  "collect_members catches ms = Some srcs \<Longrightarrow> (n, d) \<in> set srcs \<Longrightarrow> is_safe_member_name n"
proof (induction ms arbitrary: srcs)
  case Nil
  then show ?case by simp
next
  case (Cons m ms)
  then show ?case
    by (auto split: if_splits read_outcome.splits)
qed

lemma image_sources_safe:
  "image_sources_of container members = Some srcs \<Longrightarrow> (n, d) \<in> set srcs \<Longrightarrow> is_safe_member_name n"
  by (cases container) (auto simp: image_sources_of_def dest: collect_members_safe)

text \<open>
  Claim C9. A member name that is empty, has \<open>..\<close> among its components, begins with a
  slash or a backslash, has a colon as its second character, or contains a backslash, is
  refused by \<open>is_safe_member_name\<close>, and no member of that name is among the image
  sources that \<open>handle_container\<close> hands on to be normalised and uploaded.
\<close>

theorem unsafe_member_never_collected:
  assumes "name = [] \<or> has_traversal_segment name \<or> is_absolute name
           \<or> has_drive_prefix name \<or> backslash \<in> set name"
  shows "\<not> is_safe_member_name name
         \<and> (image_sources_of container members = Some srcs \<longrightarrow> name \<notin> fst ` set srcs)"
  using unsafe_name_refused [OF assms] image_sources_safe [of container members srcs name]
  by auto

theorem unsafe_member_never_collected_witness:
  "has_traversal_segment ''a/../b.jpg''
   \<and> \<not> is_safe_member_name ''a/../b.jpg''
   \<and> image_sources_of ZIP
        [\<lparr>member_name = ''a/../b.jpg'', isreg = True, read_member = Data ''x''\<rparr>,
         \<lparr>member_name = ''a/c.JPG'', isreg = True, read_member = Data ''y''\<rparr>]
       = Some [(''a/c.JPG'', ''y'')]
   \<and> ''a/../b.jpg'' \<notin> fst ` set [(''a/c.JPG'', ''y'')]"
proof -
  have h: "has_traversal_segment ''a/../b.jpg''"
    by (simp add: has_traversal_segment_def backslash_def)
  have c: "image_sources_of ZIP
        [\<lparr>member_name = ''a/../b.jpg'', isreg = True, read_member = Data ''x''\<rparr>,
         \<lparr>member_name = ''a/c.JPG'', isreg = True, read_member = Data ''y''\<rparr>]
       = Some [(''a/c.JPG'', ''y'')]"
    by code_simp
  from h have "''a/../b.jpg'' = [] \<or> has_traversal_segment ''a/../b.jpg'' \<or> is_absolute ''a/../b.jpg''
           \<or> has_drive_prefix ''a/../b.jpg'' \<or> backslash \<in> set ''a/../b.jpg''" by simp
  from unsafe_member_never_collected [OF this, of ZIP _ "[(''a/c.JPG'', ''y'')]"] h c
  show ?thesis by simp
qed


section \<open>Properties of one upload\<close>

lemma read_success_body_key_valid: "key_valid (read_success_body r)"
  by (simp add: read_success_body_def split: option.splits json.splits)

lemma try_attempts_refused_iff:
  "a \<le> retries + 1 \<Longrightarrow>
   (\<not> key_valid (try_attempts post retries [a ..< retries + 1])) =
   (\<exists>n. a \<le> n \<and> n \<le> retries \<and> (\<forall>m. a \<le> m \<and> m < n \<longrightarrow> post m = RaisesReadTimeout)
        \<and> (\<exists>r. post n = Responds r \<and> status_code r = 400))"
proof (induction "retries + 1 - a" arbitrary: a)
  case 0
  then have "[a ..< retries + 1] = []" by simp
  moreover from 0 have "a = retries + 1" by simp
  ultimately show ?case by auto
next
  case (Suc k)
  then have lt: "a \<le> retries" by simp
  then have unfold: "[a ..< retries + 1] = a # [Suc a ..< retries + 1]"
    by (simp add: upt_conv_Cons)
  have IH: "(\<not> key_valid (try_attempts post retries [Suc a ..< retries + 1])) =
     (\<exists>n. Suc a \<le> n \<and> n \<le> retries \<and> (\<forall>m. Suc a \<le> m \<and> m < n \<longrightarrow> post m = RaisesReadTimeout)
        \<and> (\<exists>r. post n = Responds r \<and> status_code r = 400))"
    using Suc by auto
  show ?case
  proof (cases "post a")
    case (Responds r)
    have "(\<not> key_valid (try_attempts post retries [a ..< retries + 1])) = (status_code r = 400)"
      by (subst unfold) (simp add: Responds read_success_body_key_valid raise_for_status_def del: upt_Suc)
    moreover have "(\<exists>n. a \<le> n \<and> n \<le> retries \<and> (\<forall>m. a \<le> m \<and> m < n \<longrightarrow> post m = RaisesReadTimeout)
        \<and> (\<exists>r. post n = Responds r \<and> status_code r = 400)) = (status_code r = 400)"
    proof
      assume "\<exists>n. a \<le> n \<and> n \<le> retries \<and> (\<forall>m. a \<le> m \<and> m < n \<longrightarrow> post m = RaisesReadTimeout)
        \<and> (\<exists>r. post n = Responds r \<and> status_code r = 400)"
      then obtain n r' where n: "a \<le> n" "\<forall>m. a \<le> m \<and> m < n \<longrightarrow> post m = RaisesReadTimeout"
        "post n = Responds r'" "status_code r' = 400" by blast
      have "n = a"
      proof (rule ccontr)
        assume "n \<noteq> a"
        with n(1) have "a < n" by simp
        with n(2) have "post a = RaisesReadTimeout" by simp
        with Responds show False by simp
      qed
      with n Responds show "status_code r = 400" by simp
    next
      assume "status_code r = 400"
      with Responds lt show "\<exists>n. a \<le> n \<and> n \<le> retries \<and> (\<forall>m. a \<le> m \<and> m < n \<longrightarrow> post m = RaisesReadTimeout)
        \<and> (\<exists>r. post n = Responds r \<and> status_code r = 400)"
        by (intro exI [of _ a]) auto
    qed
    ultimately show ?thesis by simp
  next
    case RaisesReadTimeout
    have split: "\<And>n. (a \<le> n \<and> (\<forall>m. a \<le> m \<and> m < n \<longrightarrow> post m = RaisesReadTimeout) \<and> (\<exists>r. post n = Responds r \<and> status_code r = 400))
        = (Suc a \<le> n \<and> (\<forall>m. Suc a \<le> m \<and> m < n \<longrightarrow> post m = RaisesReadTimeout) \<and> (\<exists>r. post n = Responds r \<and> status_code r = 400))"
    proof -
      fix n
      show "(a \<le> n \<and> (\<forall>m. a \<le> m \<and> m < n \<longrightarrow> post m = RaisesReadTimeout) \<and> (\<exists>r. post n = Responds r \<and> status_code r = 400))
        = (Suc a \<le> n \<and> (\<forall>m. Suc a \<le> m \<and> m < n \<longrightarrow> post m = RaisesReadTimeout) \<and> (\<exists>r. post n = Responds r \<and> status_code r = 400))"
        using RaisesReadTimeout
        by (metis Suc_leD Suc_le_eq le_neq_implies_less not_less_eq_eq post_outcome.distinct(1))
    qed
    show ?thesis
    proof (cases "a < retries")
      case True
      then have "try_attempts post retries [a ..< retries + 1]
                 = try_attempts post retries [Suc a ..< retries + 1]"
        by (subst unfold) (simp add: RaisesReadTimeout del: upt_Suc)
      with IH show ?thesis using split by auto
    next
      case False
      with lt have eq: "a = retries" by simp
      have "key_valid (try_attempts post retries [a ..< retries + 1])"
        using False by (subst unfold) (simp add: RaisesReadTimeout del: upt_Suc)
      moreover have "\<not> (\<exists>n. a \<le> n \<and> n \<le> retries \<and> (\<forall>m. a \<le> m \<and> m < n \<longrightarrow> post m = RaisesReadTimeout)
        \<and> (\<exists>r. post n = Responds r \<and> status_code r = 400))"
        using eq RaisesReadTimeout by (auto simp: le_antisym)
      ultimately show ?thesis by simp
    qed
  next
    case (RaisesOther e)
    have "key_valid (try_attempts post retries [a ..< retries + 1])"
      by (subst unfold) (simp add: RaisesOther del: upt_Suc)
    moreover have "\<not> (\<exists>n. a \<le> n \<and> n \<le> retries \<and> (\<forall>m. a \<le> m \<and> m < n \<longrightarrow> post m = RaisesReadTimeout)
        \<and> (\<exists>r. post n = Responds r \<and> status_code r = 400))"
    proof
      assume "\<exists>n. a \<le> n \<and> n \<le> retries \<and> (\<forall>m. a \<le> m \<and> m < n \<longrightarrow> post m = RaisesReadTimeout)
        \<and> (\<exists>r. post n = Responds r \<and> status_code r = 400)"
      then obtain n r' where n: "a \<le> n" "\<forall>m. a \<le> m \<and> m < n \<longrightarrow> post m = RaisesReadTimeout"
        "post n = Responds r'" by blast
      show False
      proof (cases "n = a")
        case True
        with n RaisesOther show False by simp
      next
        case False
        with n(1) have "a < n" by simp
        with n(2) have "post a = RaisesReadTimeout" by simp
        with RaisesOther show False by simp
      qed
    qed
    ultimately show ?thesis by simp
  qed
qed

text \<open>
  Claim C2, as amended. Given a key and a buffer that can be read, the result says the
  key is not valid exactly when the first attempt that is not a read timeout, among the
  attempts allowed, gets a response with status 400, whatever its message; every other
  response, every exception and a timeout on all attempts leave \<open>key_valid\<close> true.
\<close>

theorem upload_refuses_key_iff:
  assumes "api_key \<noteq> []" and "\<forall>e. image_buffer \<noteq> ReadFails e"
  shows "(\<not> key_valid (upload_to_imgbb post image_buffer name api_key retries)) =
         (\<exists>n. 1 \<le> n \<and> n \<le> retries
              \<and> (\<forall>m. 1 \<le> m \<and> m < n \<longrightarrow> post m = RaisesReadTimeout)
              \<and> (\<exists>r. post n = Responds r \<and> status_code r = 400))"
proof -
  from assms have "upload_to_imgbb post image_buffer name api_key retries
      = try_attempts post retries [1 ..< retries + 1]"
    by (cases image_buffer) (simp_all add: upload_to_imgbb_def)
  then show ?thesis
    using try_attempts_refused_iff [of 1 retries post] by simp
qed

theorem upload_refuses_key_iff_witness:
  "''key-aaaaaaaa'' \<noteq> [] \<and> (\<forall>e. Readable ''x'' \<noteq> ReadFails e)
   \<and> \<not> key_valid (upload_to_imgbb timeout_then_bad_request (Readable ''x'') ''a.jpg'' ''key-aaaaaaaa'' 3)
   \<and> (\<exists>n. 1 \<le> n \<and> n \<le> 3
          \<and> (\<forall>m. 1 \<le> m \<and> m < n \<longrightarrow> timeout_then_bad_request m = RaisesReadTimeout)
          \<and> (\<exists>r. timeout_then_bad_request n = Responds r \<and> status_code r = 400))"
proof -
  have k: "''key-aaaaaaaa'' \<noteq> []" by simp
  have b: "\<forall>e. Readable ''x'' \<noteq> ReadFails e" by simp
  have r: "\<not> key_valid (upload_to_imgbb timeout_then_bad_request (Readable ''x'') ''a.jpg'' ''key-aaaaaaaa'' 3)"
    by code_simp
  from upload_refuses_key_iff [OF k b, of timeout_then_bad_request "''a.jpg''" 3] r k b
  show ?thesis by simp
qed

text \<open>
  Claim C2 as stated does not hold: a 400 response whose message has none of the four
  words is classified as a credential failure too.
\<close>

theorem bad_request_without_keyword_refuses_key:
  "status_code bad_request = 400 \<and> \<not> mentions_credential bad_request
   \<and> \<not> key_valid (upload_to_imgbb always_bad_request (Readable ''x'') ''a.jpg'' ''key-aaaaaaaa'' 3)"
  by code_simp


section \<open>Properties of the solicitation\<close>

lemma remove_listener_absent: "active_listeners (remove_listener chat_id g) chat_id = None"
  by (auto simp: remove_listener_def)

text \<open>
  Claim C8. When \<open>request_new_key\<close> returns, with a credential, after a cancel or after
  a timeout, and through any number of re-prompts, the chat has no entry in
  \<open>active_listeners\<close>. The function is total, so the call does return.
\<close>

theorem listener_removed_on_return:
  "active_listeners (snd (snd (request_new_key chat_id msgs g))) chat_id = None"
proof (induction chat_id msgs g rule: request_new_key.induct)
  case (1 chat_id msgs g)
  show ?case
    by (subst request_new_key.simps)
       (simp add: Let_def remove_listener_absent split: prod.splits)
qed





lemma handle_text_messages_other:
  "c \<noteq> chat_id \<Longrightarrow> active_listeners (handle_text_messages c t g) chat_id = active_listeners g chat_id"
  by (simp add: handle_text_messages_def set_response_def add_key_def mark_key_as_valid_def Let_def
      split: option.splits list.splits)

lemma handle_text_messages_same:
  assumes "active_listeners g chat_id = active_listeners h chat_id"
  shows "active_listeners (handle_text_messages chat_id t g) chat_id
           = active_listeners (handle_text_messages chat_id t h) chat_id"
proof (cases "active_listeners h chat_id")
  case None
  moreover from None assms have "active_listeners g chat_id = None" by simp
  ultimately show ?thesis by (simp add: handle_text_messages_def)
next
  case (Some l)
  moreover from Some assms have "active_listeners g chat_id = Some l" by simp
  ultimately show ?thesis
    by (simp add: handle_text_messages_def set_response_def add_key_def mark_key_as_valid_def Let_def
        split: list.splits)
qed

lemma handle_text_messages_indep:
  assumes "active_listeners g chat_id = active_listeners h chat_id"
  shows "active_listeners (handle_text_messages c t g) chat_id
           = active_listeners (handle_text_messages c t h) chat_id"
proof (cases "c = chat_id")
  case True
  with handle_text_messages_same [OF assms, of t] show ?thesis by simp
next
  case False
  have "active_listeners (handle_text_messages c t g) chat_id = active_listeners g chat_id"
    using False by (rule handle_text_messages_other)
  moreover have "active_listeners (handle_text_messages c t h) chat_id = active_listeners h chat_id"
    using False by (rule handle_text_messages_other)
  ultimately show ?thesis using assms by simp
qed

lemma wait_for_event_indep:
  assumes "active_listeners g chat_id = active_listeners h chat_id"
    and "wait_for_event chat_id msgs g = (b, msgs', g')"
    and "wait_for_event chat_id msgs h = (b', msgs'', h')"
  shows "b = b' \<and> msgs' = msgs'' \<and> active_listeners g' chat_id = active_listeners h' chat_id"
  using assms
proof (induction chat_id msgs g arbitrary: h rule: wait_for_event.induct)
  case (3 chat_id c t rest g)
  let ?g = "handle_text_messages c t g" and ?h = "handle_text_messages c t h"
  from "3.prems"(1) have eq: "active_listeners ?g chat_id = active_listeners ?h chat_id"
    by (rule handle_text_messages_indep)
  show ?case
  proof (cases "case active_listeners ?g chat_id of Some l \<Rightarrow> event_set l | None \<Rightarrow> False")
    case True
    with "3.prems" eq show ?thesis by (auto simp: Let_def)
  next
    case False
    with "3.prems"(2) have wg: "wait_for_event chat_id rest ?g = (b, msgs', g')"
      by (simp add: Let_def)
    from False eq "3.prems"(3) have wh: "wait_for_event chat_id rest ?h = (b', msgs'', h')"
      by (simp add: Let_def)
    from "3.IH" [OF refl False eq wg wh] show ?thesis .
  qed
qed auto

lemma request_new_key_indep:
  assumes "request_new_key chat_id msgs g = (r, msgs', g')"
    and "request_new_key chat_id msgs h = (r', msgs'', h')"
  shows "r = r' \<and> msgs' = msgs''"
  using assms
proof (induction chat_id msgs g arbitrary: h r msgs' g' r' msgs'' h' rule: request_new_key.induct)
  case (1 chat_id msgs g)
  let ?g1 = "g\<lparr>active_listeners :=
                 (active_listeners g)(chat_id \<mapsto> \<lparr>event_set = False, response = None\<rparr>)\<rparr>"
  let ?h1 = "h\<lparr>active_listeners :=
                 (active_listeners h)(chat_id \<mapsto> \<lparr>event_set = False, response = None\<rparr>)\<rparr>"
  obtain b msgs1 g2 where wg: "wait_for_event chat_id msgs ?g1 = (b, msgs1, g2)"
    by (cases "wait_for_event chat_id msgs ?g1") auto
  obtain c msgs1' h2 where wh: "wait_for_event chat_id msgs ?h1 = (c, msgs1', h2)"
    by (cases "wait_for_event chat_id msgs ?h1") auto
  have "active_listeners ?g1 chat_id = active_listeners ?h1 chat_id" by simp
  from wait_for_event_indep [OF this wg wh]
  have bc: "c = b" and mm: "msgs1' = msgs1"
    and al: "active_listeners h2 chat_id = active_listeners g2 chat_id" by simp_all
  let ?rt = "case active_listeners g2 chat_id of None \<Rightarrow> None | Some d \<Rightarrow> response d"
  show ?case
  proof (cases "\<not> b \<or> is_cancel ?rt \<or> long_enough ?rt")
    case True
    from "1.prems"(1) wg True have "r = (if \<not> b \<or> is_cancel ?rt then None else ?rt) \<and> msgs' = msgs1"
      by (subst (asm) request_new_key.simps) (auto simp: Let_def split: if_splits)
    moreover from "1.prems"(2) wh True bc mm al
    have "r' = (if \<not> b \<or> is_cancel ?rt then None else ?rt) \<and> msgs'' = msgs1"
      by (subst (asm) request_new_key.simps) (auto simp: Let_def split: if_splits)
    ultimately show ?thesis by simp
  next
    case False
    then have sig: b and nc: "\<not> is_cancel ?rt" and nl: "\<not> long_enough ?rt" by auto
    obtain r1 m1 g3 where rg: "request_new_key chat_id msgs1 g2 = (r1, m1, g3)"
      by (cases "request_new_key chat_id msgs1 g2") auto
    obtain r2 m2 h3 where rh: "request_new_key chat_id msgs1 h2 = (r2, m2, h3)"
      by (cases "request_new_key chat_id msgs1 h2") auto
    from "1.IH" [OF refl wg [symmetric] refl _ refl nc nl rg rh] sig
    have "r1 = r2 \<and> m1 = m2" by simp
    moreover from "1.prems"(1) wg sig nc nl rg have "r = r1 \<and> msgs' = m1"
      by (subst (asm) request_new_key.simps) (simp add: Let_def)
    moreover from "1.prems"(2) wh sig nc nl rh bc mm al have "r' = r2 \<and> msgs'' = m2"
      by (subst (asm) request_new_key.simps) (simp add: Let_def)
    ultimately show ?thesis by simp
  qed
qed

lemma request_new_key_fst_indep:
  "fst (request_new_key chat_id msgs g) = fst (request_new_key chat_id msgs h)"
proof -
  obtain r m g' where a: "request_new_key chat_id msgs g = (r, m, g')"
    by (cases "request_new_key chat_id msgs g") auto
  obtain r' m' h' where b: "request_new_key chat_id msgs h = (r', m', h')"
    by (cases "request_new_key chat_id msgs h") auto
  from request_new_key_indep [OF a b] have "r = r'" by simp
  with a b show ?thesis by simp
qed


section \<open>Properties of the orchestrator\<close>

lemma upload_loop_rule:
  assumes "P s"
    and "\<And>s s'. P s \<Longrightarrow> idx s < length srcs \<Longrightarrow>
            loop_body validar upload srcs chat_id s = Continue s' \<Longrightarrow> P s'"
    and "\<And>s r. P s \<Longrightarrow> idx s < length srcs \<Longrightarrow>
            loop_body validar upload srcs chat_id s = Return r \<Longrightarrow> Q r"
    and "\<And>s. P s \<Longrightarrow> \<not> idx s < length srcs \<Longrightarrow> Q (finish_batch s)"
  shows "Q (upload_loop validar upload srcs chat_id s)"
  using assms
proof (induction validar upload srcs chat_id s rule: upload_loop.induct)
  case (1 validar upload srcs chat_id s)
  show ?case
  proof (cases "idx s < length srcs")
    case False
    with "1.prems"(1,4) show ?thesis
      by (subst upload_loop.simps) simp
  next
    case True
    show ?thesis
    proof (cases "loop_body validar upload srcs chat_id s")
      case (Return r)
      with True "1.prems"(1,3) show ?thesis
        by (subst upload_loop.simps) simp
    next
      case (Continue s')
      with True "1.prems"(1,2) have "P s'" by blast
      then have "Q (upload_loop validar upload srcs chat_id s')"
        by (rule "1.IH" [OF True Continue]) (blast intro: "1.prems"(2,3,4))+
      with True Continue show ?thesis
        by (subst upload_loop.simps) simp
    qed
  qed
qed

lemma accounts_for_snoc_uploaded:
  "accounts_for items ls es \<Longrightarrow> accounts_for (items @ [(name, payload)]) (ls @ [(name, url)]) es"
  by (induction rule: accounts_for.induct) (auto intro: accounts_for.intros)

lemma accounts_for_snoc_undecodable:
  "accounts_for items ls es \<Longrightarrow>
   accounts_for (items @ [(name, payload)]) ls (es @ [decode_error_entry name])"
  by (induction rule: accounts_for.induct) (auto intro: accounts_for.intros)

lemma accounts_for_snoc_failed:
  "accounts_for items ls es \<Longrightarrow>
   accounts_for (items @ [(name, payload)]) ls (es @ [upload_error_entry name err])"
  by (induction rule: accounts_for.induct) (auto intro: accounts_for.intros)

lemma accounts_for_subseq:
  "accounts_for items ls es \<Longrightarrow> subseq (map fst ls) (map fst items)"
  by (induction rule: accounts_for.induct) auto

lemma accounts_for_length:
  "accounts_for items ls es \<Longrightarrow> length ls + length es = length items"
  by (induction rule: accounts_for.induct) auto

lemma subseq_sorted_wrt:
  "subseq xs ys \<Longrightarrow> sorted_wrt R ys \<Longrightarrow> sorted_wrt R xs"
  by (induction rule: list_emb.induct) (auto dest: list_emb_set)

lemma take_Suc_item:
  "i < length srcs \<Longrightarrow> srcs ! i = (name, payload) \<Longrightarrow> take (Suc i) srcs = take i srcs @ [(name, payload)]"
  by (simp add: take_Suc_conv_app_nth)

lemma accounted_step:
  assumes inv: "accounted srcs s" and lt: "idx s < length srcs"
    and step: "loop_body validar upload srcs chat_id s = Continue s'"
  shows "accounted srcs s'"
proof -
  obtain name payload where item: "srcs ! idx s = (name, payload)"
    by (cases "srcs ! idx s") auto
  note tk = take_Suc_item [OF lt item]
  from inv have acc: "accounts_for (take (idx s) srcs) (links s) (errors s)"
    by (simp add: accounted_def)
  show ?thesis
  proof (cases "validar payload")
    case None
    with step item have "s' = s\<lparr>idx := idx s + 1, errors := errors s @ [decode_error_entry name]\<rparr>"
      by (simp add: loop_body_undecodable)
    with lt acc tk show ?thesis
      by (simp add: accounted_def accounts_for_snoc_undecodable)
  next
    case (Some buf)
    show ?thesis
    proof (cases "upload (clock s) name buf (current_key s)")
      case (Success url)
      from step have "idx s' = idx s + 1 \<and> links s' = links s @ [(name, url)] \<and> errors s' = errors s"
        by (auto simp: loop_body_success [where validar = validar and upload = upload, OF item Some Success] Let_def split: if_splits)
      with lt acc tk show ?thesis
        by (simp add: accounted_def accounts_for_snoc_uploaded)
    next
      case (Failure err kv)
      show ?thesis
      proof (cases kv)
        case True
        with step item Some Failure
        have "s' = s\<lparr>idx := idx s + 1, clock := clock s + 1, consecutive_successes := 0,
                       errors := errors s @ [upload_error_entry name err]\<rparr>"
          by (simp add: loop_body_item_error)
        with lt acc tk show ?thesis
          by (simp add: accounted_def accounts_for_snoc_failed)
      next
        case False
        let ?s2 = "suspended srcs chat_id s"
        obtain r msgs' g where rq: "request_new_key chat_id (inbox ?s2) (glob ?s2) = (r, msgs', g)"
          by (cases "request_new_key chat_id (inbox ?s2) (glob ?s2)") auto
        from step item Some Failure False rq obtain k where "s' = resume_with k msgs' g ?s2"
          by (cases r) (auto simp: loop_body_key_suspended Let_def)
        then have "idx s' = idx s \<and> links s' = links s \<and> errors s' = errors s"
          by (simp add: resume_with_def suspended_def suspend_job_def Let_def)
        with inv show ?thesis by (simp add: accounted_def)
      qed
    qed
  qed
qed

lemma accounted_return:
  assumes lt: "idx s < length srcs"
    and step: "loop_body validar upload srcs chat_id s = Return r"
  shows "links r = links s \<and> errors r = errors s"
proof -
  obtain name payload where item: "srcs ! idx s = (name, payload)"
    by (cases "srcs ! idx s") auto
  show ?thesis
  proof (cases "validar payload")
    case None
    with step item show ?thesis by (simp add: loop_body_undecodable)
  next
    case (Some buf)
    show ?thesis
    proof (cases "upload (clock s) name buf (current_key s)")
      case (Success url)
      with step item Some show ?thesis
        by (simp add: loop_body_success [where validar = validar and upload = upload])
    next
      case (Failure err kv)
      show ?thesis
      proof (cases kv)
        case True
        with step item Some Failure show ?thesis by (simp add: loop_body_item_error)
      next
        case False
        let ?s2 = "suspended srcs chat_id s"
        obtain r' msgs' g where rq: "request_new_key chat_id (inbox ?s2) (glob ?s2) = (r', msgs', g)"
          by (cases "request_new_key chat_id (inbox ?s2) (glob ?s2)") auto
        from step item Some Failure False rq have "r = ?s2\<lparr>glob := g, inbox := msgs'\<rparr>"
          by (cases r') (auto simp: loop_body_key_suspended Let_def)
        then show ?thesis
          by (simp add: suspended_def suspend_job_def Let_def)
      qed
    qed
  qed
qed

lemma upload_loop_accounted:
  assumes "accounted srcs s"
  shows "\<exists>n \<le> length srcs. accounts_for (take n srcs) (links (upload_loop validar upload srcs chat_id s))
            (errors (upload_loop validar upload srcs chat_id s))"
proof (rule upload_loop_rule [where P = "accounted srcs" and validar = validar and upload = upload
      and Q = "\<lambda>r. \<exists>n \<le> length srcs. accounts_for (take n srcs) (links r) (errors r)"])
  show "accounted srcs s" by fact
next
  fix s s' :: "('a, 'b) job"
  assume "accounted srcs s" "idx s < length srcs" "loop_body validar upload srcs chat_id s = Continue s'"
  then show "accounted srcs s'" by (rule accounted_step)
next
  fix s r :: "('a, 'b) job"
  assume "accounted srcs s" "idx s < length srcs" "loop_body validar upload srcs chat_id s = Return r"
  then show "\<exists>n \<le> length srcs. accounts_for (take n srcs) (links r) (errors r)"
    using accounted_return [of s srcs validar upload chat_id r]
    by (auto simp: accounted_def intro!: exI [of _ "idx s"])
next
  fix s :: "('a, 'b) job"
  assume "accounted srcs s" "\<not> idx s < length srcs"
  then show "\<exists>n \<le> length srcs. accounts_for (take n srcs) (links (finish_batch s)) (errors (finish_batch s))"
    by (auto simp: accounted_def finish_batch_def intro!: exI [of _ "idx s"])
qed

lemma start_accounted: "accounted srcs (start_job messages g key)"
  by (simp add: accounted_def start_job_def accounts_for.nothing)

lemma subseq_take: "subseq (take n xs) xs"
  by (metis append_take_drop_id subseq_rev_drop_many subseq_order.order_refl)

lemma process_accounted:
  "\<exists>n \<le> length (sort_by_name image_sources).
     accounts_for (take n (sort_by_name image_sources))
       (links (process_and_upload_images validar upload image_sources chat_id messages g))
       (errors (process_and_upload_images validar upload image_sources chat_id messages g))"
proof -
  have triv: "\<exists>n \<le> length (sort_by_name image_sources).
     accounts_for (take n (sort_by_name image_sources)) [] ([] :: string list)"
    by (intro exI [of _ 0]) (simp add: accounts_for.nothing)
  show ?thesis
  proof (cases "current_imgbb_keys g = []")
    case True
    with triv show ?thesis by (simp add: process_and_upload_images_def start_job_def)
  next
    case False
    obtain key g' where gc: "get_current_imgbb_key g = (key, g')"
      by (cases "get_current_imgbb_key g") auto
    show ?thesis
    proof (cases "key = []")
      case True
      with False gc triv show ?thesis by (simp add: process_and_upload_images_def start_job_def)
    next
      case nonempty: False
      with False gc have "process_and_upload_images validar upload image_sources chat_id messages g
        = upload_loop validar upload (sort_by_name image_sources) chat_id (start_job messages g' key)"
        by (simp add: process_and_upload_images_def)
      then show ?thesis
        using upload_loop_accounted [OF start_accounted] by simp
    qed
  qed
qed

lemma sorted_example_batch:
  "sort_by_name example_batch = [(''a.jpg'', ''A''), (''b.png'', ''B''), (''c.webp'', ''C'')]"
  by code_simp

lemma example_current_key:
  "get_current_imgbb_key example_globals = (''key-aaaaaaaa'', example_globals)"
  by (simp add: get_current_imgbb_key_def example_globals_def)

lemma example_first_pass:
  "after_iterations example_validar example_upload (sort_by_name example_batch) 7 1
     (start_job messages example_globals ''key-aaaaaaaa'') = Some (example_state messages)"
  by (simp add: sorted_example_batch start_job_def example_state_def example_validar_def
      example_upload_def example_up_def loop_body_def Let_def)

lemma outcomes_of_snoc_link:
  "outcomes_of validar upload items ls es \<Longrightarrow> validar payload = Some buf \<Longrightarrow>
   upload t name buf key = Success url \<Longrightarrow>
   outcomes_of validar upload (items @ [(name, payload)]) (ls @ [(name, url)]) es"
  by (induction rule: outcomes_of.induct) (auto intro: outcomes_of.intros)

lemma outcomes_of_snoc_no_image:
  "outcomes_of validar upload items ls es \<Longrightarrow> validar payload = None \<Longrightarrow>
   outcomes_of validar upload (items @ [(name, payload)]) ls (es @ [decode_error_entry name])"
  by (induction rule: outcomes_of.induct) (auto intro: outcomes_of.intros)

lemma outcomes_of_snoc_no_upload:
  "outcomes_of validar upload items ls es \<Longrightarrow> validar payload = Some buf \<Longrightarrow>
   upload t name buf key = Failure err True \<Longrightarrow>
   outcomes_of validar upload (items @ [(name, payload)]) ls (es @ [upload_error_entry name err])"
  by (induction rule: outcomes_of.induct) (auto intro: outcomes_of.intros)

lemma outcomes_of_accounts_for:
  "outcomes_of validar upload items ls es \<Longrightarrow> accounts_for items ls es"
  by (induction rule: outcomes_of.induct) (auto intro: accounts_for.intros)

lemma outcomes_known_step:
  assumes inv: "outcomes_known validar upload srcs s" and lt: "idx s < length srcs"
    and step: "loop_body validar upload srcs chat_id s = Continue s'"
  shows "outcomes_known validar upload srcs s'"
proof -
  obtain name payload where item: "srcs ! idx s = (name, payload)"
    by (cases "srcs ! idx s") auto
  note tk = take_Suc_item [OF lt item]
  from inv have acc: "outcomes_of validar upload (take (idx s) srcs) (links s) (errors s)"
    by (simp add: outcomes_known_def)
  show ?thesis
  proof (cases "validar payload")
    case None
    with step item have "s' = s\<lparr>idx := idx s + 1, errors := errors s @ [decode_error_entry name]\<rparr>"
      by (simp add: loop_body_undecodable)
    with lt tk outcomes_of_snoc_no_image [OF acc None, of name] show ?thesis
      by (simp add: outcomes_known_def)
  next
    case (Some buf)
    show ?thesis
    proof (cases "upload (clock s) name buf (current_key s)")
      case (Success url)
      from step have "idx s' = idx s + 1 \<and> links s' = links s @ [(name, url)] \<and> errors s' = errors s"
        by (auto simp: loop_body_success [where validar = validar and upload = upload, OF item Some Success]
                 Let_def split: if_splits)
      with lt tk outcomes_of_snoc_link [OF acc Some Success] show ?thesis
        by (simp add: outcomes_known_def)
    next
      case (Failure err kv)
      show ?thesis
      proof (cases kv)
        case True
        with step item Some Failure
        have "s' = s\<lparr>idx := idx s + 1, clock := clock s + 1, consecutive_successes := 0,
                       errors := errors s @ [upload_error_entry name err]\<rparr>"
          by (simp add: loop_body_item_error)
        moreover from Failure True
        have "upload (clock s) name buf (current_key s) = Failure err True" by simp
        note outcomes_of_snoc_no_upload [OF acc Some this]
        ultimately show ?thesis using lt tk
          by (simp add: outcomes_known_def)
      next
        case False
        let ?s2 = "suspended srcs chat_id s"
        obtain r msgs' g where rq: "request_new_key chat_id (inbox ?s2) (glob ?s2) = (r, msgs', g)"
          by (cases "request_new_key chat_id (inbox ?s2) (glob ?s2)") auto
        from step item Some Failure False rq obtain k where "s' = resume_with k msgs' g ?s2"
          by (cases r) (auto simp: loop_body_key_suspended Let_def)
        then have "idx s' = idx s \<and> links s' = links s \<and> errors s' = errors s"
          by (simp add: resume_with_def suspended_def suspend_job_def Let_def)
        with inv show ?thesis by (simp add: outcomes_known_def)
      qed
    qed
  qed
qed

lemma return_means_refused:
  assumes lt: "idx s < length srcs"
    and step: "loop_body validar upload srcs chat_id s = Return r"
  shows "refused_at validar upload srcs (idx s)"
proof -
  obtain name payload where item: "srcs ! idx s = (name, payload)"
    by (cases "srcs ! idx s") auto
  show ?thesis
  proof (cases "validar payload")
    case None
    with step item show ?thesis by (simp add: loop_body_undecodable)
  next
    case (Some buf)
    show ?thesis
    proof (cases "upload (clock s) name buf (current_key s)")
      case (Success url)
      with step item Some show ?thesis
        by (simp add: loop_body_success [where validar = validar and upload = upload])
    next
      case (Failure err kv)
      show ?thesis
      proof (cases kv)
        case True
        with step item Some Failure show ?thesis by (simp add: loop_body_item_error)
      next
        case False
        with Failure have "upload (clock s) name buf (current_key s) = Failure err False" by simp
        with lt item Some show ?thesis
          unfolding refused_at_def by (intro conjI exI [of _ "clock s"] exI [of _ buf] exI [of _ "current_key s"] exI [of _ err]) simp_all
      qed
    qed
  qed
qed

lemma upload_loop_outcomes:
  assumes "outcomes_known validar upload srcs s"
  shows "\<exists>n. outcomes_of validar upload (take n srcs)
                (links (upload_loop validar upload srcs chat_id s))
                (errors (upload_loop validar upload srcs chat_id s))
             \<and> (n = length srcs \<or> refused_at validar upload srcs n)"
proof (rule upload_loop_rule [where P = "outcomes_known validar upload srcs"
      and validar = validar and upload = upload
      and Q = "\<lambda>r. \<exists>n. outcomes_of validar upload (take n srcs) (links r) (errors r)
                       \<and> (n = length srcs \<or> refused_at validar upload srcs n)"])
  show "outcomes_known validar upload srcs s" by fact
next
  fix s s' :: "('a, 'c) job"
  assume "outcomes_known validar upload srcs s" "idx s < length srcs"
    "loop_body validar upload srcs chat_id s = Continue s'"
  then show "outcomes_known validar upload srcs s'" by (rule outcomes_known_step)
next
  fix s r :: "('a, 'c) job"
  assume inv: "outcomes_known validar upload srcs s" and lt: "idx s < length srcs"
    and ret: "loop_body validar upload srcs chat_id s = Return r"
  from accounted_return [OF lt ret] have "links r = links s" "errors r = errors s" by simp_all
  moreover from lt ret have "refused_at validar upload srcs (idx s)" by (rule return_means_refused)
  ultimately show "\<exists>n. outcomes_of validar upload (take n srcs) (links r) (errors r)
                       \<and> (n = length srcs \<or> refused_at validar upload srcs n)"
    using inv by (intro exI [of _ "idx s"]) (simp add: outcomes_known_def)
next
  fix s :: "('a, 'c) job"
  assume "outcomes_known validar upload srcs s" "\<not> idx s < length srcs"
  then show "\<exists>n. outcomes_of validar upload (take n srcs) (links (finish_batch s)) (errors (finish_batch s))
                       \<and> (n = length srcs \<or> refused_at validar upload srcs n)"
    by (intro exI [of _ "idx s"]) (auto simp: outcomes_known_def finish_batch_def)
qed

lemma start_outcomes_known: "outcomes_known validar upload srcs (start_job messages g key)"
  by (simp add: outcomes_known_def start_job_def outcomes_of.none)

text \<open>
  Claim C7. Whatever the collaborators answer and however often a key is refused and
  replaced, the links are in the case-insensitive order of the names: their lowered
  names are sorted, their names are a subsequence of the names of the sorted batch, and
  the gallery's URLs are the links' URLs in the same order. When the pool gives a key,
  the links and errors are the outcomes, item by item and in the order of the sorted
  batch, of all its items, or of the items before one whose upload was refused for its
  key: every item that decodes and uploads has its link there, with the URL the service
  returned for it.
\<close>

theorem links_in_name_order:
  fixes validar :: "'p \<Rightarrow> 'b option"
    and upload :: "nat \<Rightarrow> string \<Rightarrow> 'b \<Rightarrow> string \<Rightarrow> ('u, string) upload_result"
    and image_sources :: "(string \<times> 'p) list" and chat_id :: int
    and messages :: "inbound list" and g :: "('p, 'u) globals"
  defines "srcs \<equiv> sort_by_name image_sources"
    and "r \<equiv> process_and_upload_images validar upload image_sources chat_id messages g"
  shows "sorted (map (\<lambda>l. py_lower (fst l)) (links r))
         \<and> subseq (map fst (links r)) (map fst srcs)
         \<and> img_urls r = map snd (links r)
         \<and> (current_imgbb_keys g \<noteq> [] \<and> fst (get_current_imgbb_key g) \<noteq> [] \<longrightarrow>
              (\<exists>n. outcomes_of validar upload (take n srcs) (links r) (errors r)
                    \<and> (n = length srcs \<or> refused_at validar upload srcs n)))"
proof -
  obtain n where "accounts_for (take n srcs) (links r) (errors r)"
    unfolding r_def srcs_def using process_accounted by blast
  then have "subseq (map fst (links r)) (map fst (take n srcs))"
    by (rule accounts_for_subseq)
  moreover have "subseq (map fst (take n srcs)) (map fst srcs)"
    by (intro subseq_map subseq_take)
  ultimately have sub: "subseq (map fst (links r)) (map fst srcs)"
    by (rule subseq_order.trans)
  then have "subseq (map py_lower (map fst (links r))) (map py_lower (map fst srcs))"
    by (rule subseq_map)
  moreover have "sorted (map py_lower (map fst srcs))"
    using sorted_sort_key [of "\<lambda>x. py_lower (fst x)" image_sources]
    by (simp add: srcs_def sort_by_name_def comp_def)
  ultimately have srt: "sorted (map py_lower (map fst (links r)))"
    by (rule subseq_sorted_wrt)
  have run: "\<exists>n. outcomes_of validar upload (take n srcs) (links r) (errors r)
                    \<and> (n = length srcs \<or> refused_at validar upload srcs n)"
    if keys: "current_imgbb_keys g \<noteq> []" and key: "fst (get_current_imgbb_key g) \<noteq> []"
  proof -
    obtain k g' where gc: "get_current_imgbb_key g = (k, g')"
      by (cases "get_current_imgbb_key g") auto
    with keys key have "r = upload_loop validar upload srcs chat_id (start_job messages g' k)"
      by (simp add: r_def srcs_def process_and_upload_images_def)
    then show ?thesis
      using upload_loop_outcomes [OF start_outcomes_known] by simp
  qed
  from srt sub run show ?thesis by (simp add: comp_def img_urls_def)
qed

theorem links_in_name_order_witness:
  "current_imgbb_keys example_globals \<noteq> []
   \<and> fst (get_current_imgbb_key example_globals) \<noteq> []
   \<and> links (process_and_upload_images example_validar example_upload example_batch 7
               [TextMessage 7 ''key-bbbbbbbb''] example_globals)
       = [(''a.jpg'', ''https://i.ibb.co/a.jpg''), (''b.png'', ''https://i.ibb.co/b.png''),
          (''c.webp'', ''https://i.ibb.co/c.webp'')]
   \<and> sorted (map (\<lambda>l. py_lower (fst l))
        [(''a.jpg'', ''https://i.ibb.co/a.jpg''), (''b.png'', ''https://i.ibb.co/b.png''),
         (''c.webp'', ''https://i.ibb.co/c.webp'')])
   \<and> img_urls (process_and_upload_images example_validar example_upload example_batch 7
               [TextMessage 7 ''key-bbbbbbbb''] example_globals)
       = [''https://i.ibb.co/a.jpg'', ''https://i.ibb.co/b.png'', ''https://i.ibb.co/c.webp'']
   \<and> outcomes_of example_validar example_upload (sort_by_name example_batch)
        [(''a.jpg'', ''https://i.ibb.co/a.jpg''), (''b.png'', ''https://i.ibb.co/b.png''),
         (''c.webp'', ''https://i.ibb.co/c.webp'')] []"
proof -
  let ?r = "process_and_upload_images example_validar example_upload example_batch 7
               [TextMessage 7 ''key-bbbbbbbb''] example_globals"
  let ?srcs = "sort_by_name example_batch"
  let ?ls = "[(''a.jpg'', ''https://i.ibb.co/a.jpg''), (''b.png'', ''https://i.ibb.co/b.png''),
          (''c.webp'', ''https://i.ibb.co/c.webp'')]"
  have keys: "current_imgbb_keys example_globals \<noteq> []" by (simp add: example_globals_def)
  have key: "fst (get_current_imgbb_key example_globals) \<noteq> []"
    by (simp add: example_current_key)
  have L: "links ?r = ?ls" by code_simp
  have E: "errors ?r = []" by code_simp
  note inst = links_in_name_order [where validar = example_validar and upload = example_upload
      and image_sources = example_batch and chat_id = 7
      and messages = "[TextMessage 7 ''key-bbbbbbbb'']" and g = example_globals]
  from inst have srt: "sorted (map (\<lambda>l. py_lower (fst l)) (links ?r))"
    and urls: "img_urls ?r = map snd (links ?r)" by simp_all
  from inst keys key obtain n where n: "outcomes_of example_validar example_upload (take n ?srcs) (links ?r) (errors ?r)"
    by blast
  then have "length (links ?r) + length (errors ?r) = length (take n ?srcs)"
    by (intro accounts_for_length outcomes_of_accounts_for)
  then have "take n ?srcs = ?srcs"
    by (simp add: L E sorted_example_batch)
  with n have "outcomes_of example_validar example_upload ?srcs ?ls []"
    by (simp add: L E)
  with keys key srt urls L show ?thesis by simp
qed

lemma after_iterations_sound:
  assumes "after_iterations validar upload srcs chat_id n s0 = Some s" and "accounted srcs s0"
  shows "accounted srcs s
         \<and> upload_loop validar upload srcs chat_id s0 = upload_loop validar upload srcs chat_id s"
  using assms
proof (induction n arbitrary: s0)
  case 0
  then show ?case by simp
next
  case (Suc n)
  from Suc.prems(1) have lt: "idx s0 < length srcs"
    by (simp split: if_splits)
  with Suc.prems(1) obtain s1 where body: "loop_body validar upload srcs chat_id s0 = Continue s1"
    and rest: "after_iterations validar upload srcs chat_id n s1 = Some s"
    by (cases "loop_body validar upload srcs chat_id s0") auto
  from Suc.prems(2) lt body have "accounted srcs s1" by (rule accounted_step)
  with Suc.IH [OF rest] have "accounted srcs s"
    and "upload_loop validar upload srcs chat_id s1 = upload_loop validar upload srcs chat_id s"
    by simp_all
  moreover from lt body
  have "upload_loop validar upload srcs chat_id s0 = upload_loop validar upload srcs chat_id s1"
    by (subst upload_loop.simps) simp
  ultimately show ?case by simp
qed

text \<open>
  Claim C6. When the run has reached an item whose upload is refused for its key and
  the solicitation ends with no credential (cancel or timeout), the orchestrator returns
  the links and the errors it had when it came to that item: they account for the items
  before it and for nothing else.
\<close>

theorem cancelled_job_outcome:
  fixes validar :: "'p \<Rightarrow> 'b option"
    and upload :: "nat \<Rightarrow> string \<Rightarrow> 'b \<Rightarrow> string \<Rightarrow> ('u, string) upload_result"
  assumes "current_imgbb_keys g \<noteq> []" and "get_current_imgbb_key g = (key, g')" and "key \<noteq> []"
    and "srcs = sort_by_name image_sources"
    and "after_iterations validar upload srcs chat_id n (start_job messages g' key) = Some s"
    and "idx s < length srcs" and "srcs ! idx s = (name, payload)"
    and "validar payload = Some buf"
    and "upload (clock s) name buf (current_key s) = Failure err False"
    and "fst (request_new_key chat_id (inbox s) (glob (suspended srcs chat_id s))) = None"
  shows "links (process_and_upload_images validar upload image_sources chat_id messages g) = links s
         \<and> errors (process_and_upload_images validar upload image_sources chat_id messages g) = errors s
         \<and> accounts_for (take (idx s) srcs) (links s) (errors s)"
proof -
  let ?s2 = "suspended srcs chat_id s"
  have run: "process_and_upload_images validar upload image_sources chat_id messages g
        = upload_loop validar upload srcs chat_id (start_job messages g' key)"
    using assms(1-4) by (simp add: process_and_upload_images_def)
  from after_iterations_sound [OF assms(5) start_accounted]
  have acc: "accounted srcs s"
    and same: "upload_loop validar upload srcs chat_id (start_job messages g' key)
               = upload_loop validar upload srcs chat_id s"
    by simp_all
  obtain msgs' g2 where rq: "request_new_key chat_id (inbox ?s2) (glob ?s2) = (None, msgs', g2)"
    using assms(10)
    by (cases "request_new_key chat_id (inbox ?s2) (glob ?s2)")
       (auto simp: suspended_def suspend_job_def Let_def)
  have "loop_body validar upload srcs chat_id s = Return (?s2\<lparr>glob := g2, inbox := msgs'\<rparr>)"
    using rq assms(7,8,9) by (simp add: loop_body_key_suspended Let_def)
  with assms(6) have "upload_loop validar upload srcs chat_id s = ?s2\<lparr>glob := g2, inbox := msgs'\<rparr>"
    by (subst upload_loop.simps) simp
  with run same acc show ?thesis
    by (simp add: accounted_def suspended_def suspend_job_def Let_def)
qed

theorem cancelled_job_outcome_witness:
  "fst (request_new_key 7 [TextMessage 7 ''/cancel'']
          (glob (suspended (sort_by_name example_batch) 7 (example_state [TextMessage 7 ''/cancel''])))) = None
   \<and> links (process_and_upload_images example_validar example_upload example_batch 7
               [TextMessage 7 ''/cancel''] example_globals)
       = [(''a.jpg'', ''https://i.ibb.co/a.jpg'')]
   \<and> errors (process_and_upload_images example_validar example_upload example_batch 7
               [TextMessage 7 ''/cancel''] example_globals) = []
   \<and> accounts_for (take 1 (sort_by_name example_batch)) [(''a.jpg'', ''https://i.ibb.co/a.jpg'')] []"
proof -
  let ?msgs = "[TextMessage 7 ''/cancel'']"
  let ?s = "example_state ?msgs"
  let ?srcs = "sort_by_name example_batch"
  have h1: "current_imgbb_keys example_globals \<noteq> []" by (simp add: example_globals_def)
  have h3: "''key-aaaaaaaa'' \<noteq> []" by simp
  have h6: "idx ?s < length ?srcs" by (simp add: sorted_example_batch example_state_def)
  have h7: "?srcs ! idx ?s = (''b.png'', ''B'')" by (simp add: sorted_example_batch example_state_def)
  have h8: "example_validar ''B'' = Some ''B''" by (simp add: example_validar_def)
  have h9: "example_upload (clock ?s) ''b.png'' ''B'' (current_key ?s) = Failure ''API key'' False"
    by (simp add: example_upload_def example_up_def example_state_def)
  have h10: "fst (request_new_key 7 (inbox ?s) (glob (suspended ?srcs 7 ?s))) = None"
    by code_simp
  have inb: "inbox ?s = ?msgs" by (simp add: example_state_def)
  from cancelled_job_outcome [where validar = example_validar and upload = example_upload,
      OF h1 example_current_key h3 refl example_first_pass h6 h7 h8 h9 h10]
    h10 inb
  show ?thesis by (simp add: example_state_def)
qed






lemma successes_append:
  "successes validar up key (xs @ ys) = successes validar up key xs @ successes validar up key ys"
  by (induction xs) (auto split: option.splits upload_result.splits)

lemma successes_cong:
  "(\<And>name payload buf. (name, payload) \<in> set items \<Longrightarrow> validar payload = Some buf \<Longrightarrow>
       up name buf k1 = up name buf k2) \<Longrightarrow>
   successes validar up k1 items = successes validar up k2 items"
proof (induction items)
  case Nil
  then show ?case by simp
next
  case (Cons item items)
  obtain name payload where item: "item = (name, payload)" by (cases item) auto
  from Cons have IH: "successes validar up k1 items = successes validar up k2 items" by auto
  show ?case
  proof (cases "validar payload")
    case None
    with IH item show ?thesis by simp
  next
    case (Some buf)
    with Cons.prems [of name payload buf] item have "up name buf k1 = up name buf k2" by simp
    with IH item Some show ?thesis by (simp split: upload_result.splits)
  qed
qed

lemma drop_item:
  "i < length srcs \<Longrightarrow> srcs ! i = (name, payload) \<Longrightarrow> drop i srcs = (name, payload) # drop (Suc i) srcs"
  by (metis Cons_nth_drop_Suc)

text \<open>One pass over an item whose upload is not refused.\<close>

lemma loop_body_accepted:
  fixes up :: "string \<Rightarrow> 'b \<Rightarrow> string \<Rightarrow> ('u, string) upload_result"
  assumes lt: "idx s < length srcs"
    and ok: "\<And>buf. validar (snd (srcs ! idx s)) = Some buf \<Longrightarrow>
               key_valid (up (fst (srcs ! idx s)) buf (current_key s))"
  shows "\<exists>s'. loop_body validar (\<lambda>t. up) srcs chat_id s = Continue s'
           \<and> idx s' = idx s + 1 \<and> current_key s' = current_key s \<and> inbox s' = inbox s
           \<and> links s' = links s @ successes validar up (current_key s) [srcs ! idx s]"
proof -
  obtain name payload where item: "srcs ! idx s = (name, payload)"
    by (cases "srcs ! idx s") auto
  show ?thesis
  proof (cases "validar payload")
    case None
    with item show ?thesis by (simp add: loop_body_undecodable)
  next
    case (Some buf)
    with ok item have kv: "key_valid (up name buf (current_key s))" by simp
    show ?thesis
    proof (cases "up name buf (current_key s)")
      case (Success url)
      then show ?thesis
        using item Some
        by (simp add: loop_body_success [where validar = validar and upload = "\<lambda>t. up"] Let_def)
    next
      case (Failure err b)
      with kv have "b" by simp
      with Failure item Some show ?thesis
        by (simp add: loop_body_item_error [where validar = validar and upload = "\<lambda>t. up"])
    qed
  qed
qed

lemma upload_loop_accepted:
  fixes up :: "string \<Rightarrow> 'b \<Rightarrow> string \<Rightarrow> ('u, string) upload_result"
  assumes "idx s \<le> j" and "j \<le> length srcs"
    and "\<And>i buf. idx s \<le> i \<Longrightarrow> i < j \<Longrightarrow> validar (snd (srcs ! i)) = Some buf \<Longrightarrow>
               key_valid (up (fst (srcs ! i)) buf (current_key s))"
  shows "\<exists>s'. upload_loop validar (\<lambda>t. up) srcs chat_id s = upload_loop validar (\<lambda>t. up) srcs chat_id s'
           \<and> idx s' = j \<and> current_key s' = current_key s \<and> inbox s' = inbox s
           \<and> links s' = links s @ successes validar up (current_key s) (take (j - idx s) (drop (idx s) srcs))"
  using assms
proof (induction "j - idx s" arbitrary: s)
  case 0
  then show ?case by (intro exI [of _ s]) simp
next
  case (Suc d)
  then have lt: "idx s < length srcs" and ltj: "idx s < j" by simp_all
  from loop_body_accepted [OF lt, of validar up chat_id] Suc.prems(3) [of "idx s"] ltj
  obtain s1 where body: "loop_body validar (\<lambda>t. up) srcs chat_id s = Continue s1"
    and s1: "idx s1 = idx s + 1" "current_key s1 = current_key s" "inbox s1 = inbox s"
      "links s1 = links s @ successes validar up (current_key s) [srcs ! idx s]"
    by auto
  from lt body have unfold: "upload_loop validar (\<lambda>t. up) srcs chat_id s
      = upload_loop validar (\<lambda>t. up) srcs chat_id s1"
    by (subst upload_loop.simps) simp
  have "\<exists>s'. upload_loop validar (\<lambda>t. up) srcs chat_id s1 = upload_loop validar (\<lambda>t. up) srcs chat_id s'
           \<and> idx s' = j \<and> current_key s' = current_key s1 \<and> inbox s' = inbox s1
           \<and> links s' = links s1 @ successes validar up (current_key s1) (take (j - idx s1) (drop (idx s1) srcs))"
  proof (rule Suc.hyps(1))
    show "d = j - idx s1" using Suc.hyps(2) s1 by simp
    show "idx s1 \<le> j" using ltj s1 by simp
    show "j \<le> length srcs" by fact
    show "\<And>i buf. idx s1 \<le> i \<Longrightarrow> i < j \<Longrightarrow> validar (snd (srcs ! i)) = Some buf \<Longrightarrow>
               key_valid (up (fst (srcs ! i)) buf (current_key s1))"
      using Suc.prems(3) s1 by simp
  qed
  then obtain s' where s': "upload_loop validar (\<lambda>t. up) srcs chat_id s1 = upload_loop validar (\<lambda>t. up) srcs chat_id s'"
    "idx s' = j" "current_key s' = current_key s1" "inbox s' = inbox s1"
    "links s' = links s1 @ successes validar up (current_key s1) (take (j - idx s1) (drop (idx s1) srcs))"
    by blast
  have "drop (idx s) srcs = srcs ! idx s # drop (Suc (idx s)) srcs"
    using lt by (simp add: Cons_nth_drop_Suc)
  moreover have "j - idx s = Suc (j - idx s1)"
    using ltj s1(1) by simp
  ultimately have "take (j - idx s) (drop (idx s) srcs)
        = [srcs ! idx s] @ take (j - idx s1) (drop (idx s1) srcs)"
    using s1(1) by simp
  then have "successes validar up (current_key s) (take (j - idx s) (drop (idx s) srcs))
     = successes validar up (current_key s) [srcs ! idx s]
       @ successes validar up (current_key s) (take (j - idx s1) (drop (idx s1) srcs))"
    by (simp only: successes_append)
  with s' s1 unfold show ?case
    by (intro exI [of _ s']) (simp del: successes.simps)
qed

lemma upload_loop_finished:
  "\<not> idx s < length srcs \<Longrightarrow> links (upload_loop validar upload srcs chat_id s) = links s"
  by (subst upload_loop.simps) (simp add: finish_batch_def)

lemma upload_loop_all_accepted:
  fixes up :: "string \<Rightarrow> 'b \<Rightarrow> string \<Rightarrow> ('u, string) upload_result"
  assumes "idx s \<le> length srcs"
    and "\<And>i buf. idx s \<le> i \<Longrightarrow> i < length srcs \<Longrightarrow> validar (snd (srcs ! i)) = Some buf \<Longrightarrow>
               key_valid (up (fst (srcs ! i)) buf (current_key s))"
  shows "links (upload_loop validar (\<lambda>t. up) srcs chat_id s)
           = links s @ successes validar up (current_key s) (drop (idx s) srcs)"
proof -
  from upload_loop_accepted [OF assms(1) order_refl, of validar up chat_id] assms(2)
  obtain s' where "upload_loop validar (\<lambda>t. up) srcs chat_id s = upload_loop validar (\<lambda>t. up) srcs chat_id s'"
    "idx s' = length srcs"
    "links s' = links s @ successes validar up (current_key s) (take (length srcs - idx s) (drop (idx s) srcs))"
    by blast
  then show ?thesis by (simp add: upload_loop_finished)
qed

text \<open>
  Claim C4. Take a service whose answers do not depend on the time, a run in which the
  first key is refused at one item and the requester supplies a second key, and a run
  of the same batch that starts with the second key. If the second key is never refused
  and the items before the refused one have the same outcome under both keys, the two
  runs return the same links.
\<close>

theorem swap_is_transparent:
  fixes validar :: "'p \<Rightarrow> 'b option"
    and up :: "string \<Rightarrow> 'b \<Rightarrow> string \<Rightarrow> ('u, string) upload_result"
    and g h :: "('p, 'u) globals"
  assumes srcs: "srcs = sort_by_name image_sources"
    and first_run: "current_imgbb_keys g \<noteq> []" "get_current_imgbb_key g = (k1, g1)" "k1 \<noteq> []"
    and second_run: "current_imgbb_keys h \<noteq> []" "get_current_imgbb_key h = (k2, h1)" "k2 \<noteq> []"
    and j: "j < length srcs"
    and same: "\<forall>i<j. \<forall>buf. validar (snd (srcs ! i)) = Some buf \<longrightarrow>
                 up (fst (srcs ! i)) buf k1 = up (fst (srcs ! i)) buf k2"
    and refused: "validar (snd (srcs ! j)) = Some bufj"
                 "up (fst (srcs ! j)) bufj k1 = Failure err False"
    and reply: "fst (request_new_key chat_id messages g) = Some k2"
    and works: "\<forall>i<length srcs. \<forall>buf. validar (snd (srcs ! i)) = Some buf \<longrightarrow>
                 key_valid (up (fst (srcs ! i)) buf k2)"
  shows "links (process_and_upload_images validar (\<lambda>t. up) image_sources chat_id messages g)
           = links (process_and_upload_images validar (\<lambda>t. up) image_sources chat_id' messages' h)
         \<and> set (links (process_and_upload_images validar (\<lambda>t. up) image_sources chat_id messages g))
           = set (links (process_and_upload_images validar (\<lambda>t. up) image_sources chat_id' messages' h))"
proof -
  let ?A = "process_and_upload_images validar (\<lambda>t. up) image_sources chat_id messages g"
  let ?B = "process_and_upload_images validar (\<lambda>t. up) image_sources chat_id' messages' h"
  let ?a0 = "start_job messages g1 k1 :: ('p, 'u) job"
  let ?b0 = "start_job messages' h1 k2 :: ('p, 'u) job"
  have A: "?A = upload_loop validar (\<lambda>t. up) srcs chat_id ?a0"
    using srcs first_run by (simp add: process_and_upload_images_def)
  have B: "?B = upload_loop validar (\<lambda>t. up) srcs chat_id' ?b0"
    using srcs second_run by (simp add: process_and_upload_images_def)
  \<comment> \<open>the run without a swap\<close>
  have "links ?B = links ?b0 @ successes validar up (current_key ?b0) (drop (idx ?b0) srcs)"
    unfolding B
    by (rule upload_loop_all_accepted) (use works in \<open>simp_all add: start_job_def\<close>)
  then have linksB: "links ?B = successes validar up k2 srcs"
    by (simp add: start_job_def)
  \<comment> \<open>the run with the swap, up to the item that is refused\<close>
  have "\<exists>s'. upload_loop validar (\<lambda>t. up) srcs chat_id ?a0 = upload_loop validar (\<lambda>t. up) srcs chat_id s'
           \<and> idx s' = j \<and> current_key s' = current_key ?a0 \<and> inbox s' = inbox ?a0
           \<and> links s' = links ?a0 @ successes validar up (current_key ?a0) (take (j - idx ?a0) (drop (idx ?a0) srcs))"
  proof (rule upload_loop_accepted)
    show "idx ?a0 \<le> j" by (simp add: start_job_def)
    show "j \<le> length srcs" using j by simp
    fix i buf
    assume "i < j" and dec: "validar (snd (srcs ! i)) = Some buf"
    with same have "up (fst (srcs ! i)) buf k1 = up (fst (srcs ! i)) buf k2" by simp
    moreover from \<open>i < j\<close> j works dec have "key_valid (up (fst (srcs ! i)) buf k2)" by simp
    ultimately show "key_valid (up (fst (srcs ! i)) buf (current_key ?a0))"
      by (simp add: start_job_def)
  qed
  then obtain sj where sj: "upload_loop validar (\<lambda>t. up) srcs chat_id ?a0
                              = upload_loop validar (\<lambda>t. up) srcs chat_id sj"
    "idx sj = j" "current_key sj = k1" "inbox sj = messages"
    "links sj = successes validar up k1 (take j srcs)"
    by (auto simp: start_job_def)
  \<comment> \<open>the refusal and the new key\<close>
  let ?s2 = "suspended srcs chat_id sj"
  obtain name payload where item: "srcs ! idx sj = (name, payload)"
    by (cases "srcs ! idx sj") auto
  have inb: "inbox ?s2 = messages"
    using sj(4) by (simp add: suspended_def suspend_job_def Let_def)
  obtain r msgs' g2 where rq: "request_new_key chat_id (inbox ?s2) (glob ?s2) = (r, msgs', g2)"
    by (cases "request_new_key chat_id (inbox ?s2) (glob ?s2)") auto
  have "r = Some k2"
    using reply rq request_new_key_fst_indep [of chat_id messages "glob ?s2" g] inb by simp
  with rq item refused sj(2,3)
  have body: "loop_body validar (\<lambda>t. up) srcs chat_id sj = Continue (resume_with k2 msgs' g2 ?s2)"
    by (simp add: loop_body_key_suspended [where validar = validar and upload = "\<lambda>t. up"] Let_def)
  let ?s3 = "resume_with k2 msgs' g2 ?s2"
  have s3: "idx ?s3 = j" "current_key ?s3 = k2" "links ?s3 = successes validar up k1 (take j srcs)"
    using sj by (simp_all add: resume_with_def suspended_def suspend_job_def Let_def)
  from body j sj(2) have "upload_loop validar (\<lambda>t. up) srcs chat_id sj
        = upload_loop validar (\<lambda>t. up) srcs chat_id ?s3"
    by (subst upload_loop.simps) simp
  \<comment> \<open>the rest of the batch under the new key\<close>
  moreover have "links (upload_loop validar (\<lambda>t. up) srcs chat_id ?s3)
      = links ?s3 @ successes validar up (current_key ?s3) (drop (idx ?s3) srcs)"
    by (rule upload_loop_all_accepted) (use works j s3 in simp_all)
  ultimately have "links ?A = successes validar up k1 (take j srcs) @ successes validar up k2 (drop j srcs)"
    using A sj(1) s3 by simp
  moreover have "successes validar up k1 (take j srcs) = successes validar up k2 (take j srcs)"
  proof (rule successes_cong)
    fix name payload buf
    assume "(name, payload) \<in> set (take j srcs)" and dec: "validar payload = Some buf"
    then obtain i where "i < j" "i < length srcs" "srcs ! i = (name, payload)"
      by (auto simp: in_set_conv_nth)
    with same dec show "up name buf k1 = up name buf k2" by force
  qed
  ultimately have "links ?A = successes validar up k2 (take j srcs @ drop j srcs)"
    by (simp only: successes_append)
  with linksB show ?thesis by simp
qed

theorem swap_is_transparent_witness:
  "fst (request_new_key 7 [TextMessage 7 ''key-bbbbbbbb''] example_globals) = Some ''key-bbbbbbbb''
   \<and> example_up ''b.png'' ''B'' ''key-aaaaaaaa'' = Failure ''API key'' False
   \<and> links (process_and_upload_images example_validar (\<lambda>t. example_up) example_batch 7
               [TextMessage 7 ''key-bbbbbbbb''] example_globals)
       = links (process_and_upload_images example_validar (\<lambda>t. example_up) example_batch 7
               [] second_globals)
   \<and> links (process_and_upload_images example_validar (\<lambda>t. example_up) example_batch 7
               [] second_globals)
       = [(''a.jpg'', ''https://i.ibb.co/a.jpg''), (''b.png'', ''https://i.ibb.co/b.png''),
          (''c.webp'', ''https://i.ibb.co/c.webp'')]"
proof -
  let ?srcs = "sort_by_name example_batch"
  have g1: "current_imgbb_keys example_globals \<noteq> []" by (simp add: example_globals_def)
  have h1: "current_imgbb_keys second_globals \<noteq> []" by (simp add: second_globals_def)
  have h2: "get_current_imgbb_key second_globals = (''key-bbbbbbbb'', second_globals)"
    by (simp add: get_current_imgbb_key_def second_globals_def)
  have k1: "''key-aaaaaaaa'' \<noteq> []" and k2: "''key-bbbbbbbb'' \<noteq> []" by simp_all
  have j: "1 < length ?srcs" by (simp add: sorted_example_batch)
  have same: "\<forall>i<1. \<forall>buf. example_validar (snd (?srcs ! i)) = Some buf \<longrightarrow>
       example_up (fst (?srcs ! i)) buf ''key-aaaaaaaa'' = example_up (fst (?srcs ! i)) buf ''key-bbbbbbbb''"
    by (simp add: sorted_example_batch example_up_def)
  have r1: "example_validar (snd (?srcs ! 1)) = Some ''B''"
    by (simp add: sorted_example_batch example_validar_def)
  have r2: "example_up (fst (?srcs ! 1)) ''B'' ''key-aaaaaaaa'' = Failure ''API key'' False"
    by (simp add: sorted_example_batch example_up_def)
  have reply: "fst (request_new_key 7 [TextMessage 7 ''key-bbbbbbbb''] example_globals) = Some ''key-bbbbbbbb''"
    by code_simp
  have works: "\<forall>i<length ?srcs. \<forall>buf. example_validar (snd (?srcs ! i)) = Some buf \<longrightarrow>
       key_valid (example_up (fst (?srcs ! i)) buf ''key-bbbbbbbb'')"
    by (simp add: example_up_def)
  have B: "links (process_and_upload_images example_validar (\<lambda>t. example_up) example_batch 7
               [] second_globals)
       = [(''a.jpg'', ''https://i.ibb.co/a.jpg''), (''b.png'', ''https://i.ibb.co/b.png''),
          (''c.webp'', ''https://i.ibb.co/c.webp'')]"
    by code_simp
  from swap_is_transparent [where validar = example_validar and up = example_up
      and chat_id' = 7 and messages' = "[]",
      OF refl g1 example_current_key k1 h1 h2 k2 j same r1 r2 reply works] reply r2 B
  show ?thesis by (simp add: sorted_example_batch)
qed

end
